theory Spec2Isabelle
  imports Main
begin

section \<open>File-backed collections: the SQLite side\<close>

text \<open>
  The module \<^verbatim>\<open>file_backed_collections.py\<close> keeps a dictionary partly in an
  in-memory \<^verbatim>\<open>OrderedDict\<close> and partly in a table of a SQLite file. Python
  exceptions are values of the type \<open>error\<close>; every operation returns its result
  (or the error) together with the state it leaves behind, since a caller may
  catch the exception and go on with the mutated objects.
\<close>

type_synonym path = string
type_synonym conn = nat

datatype error =
    KeyError string
  | IndexError int
  | AssertionError
  | AttributeError
  | ProgrammingError
  | OperationalError

text \<open>
  A row of a collection's table: the \<^verbatim>\<open>key\<close> column, the \<^verbatim>\<open>value\<close> column and
  the extra columns in the order of the \<^verbatim>\<open>extra_columns\<close> dictionary. The type
  \<open>'b\<close> stands for \<^verbatim>\<open>SqliteValue\<close>.
\<close>

type_synonym 'b row = "string \<times> 'b \<times> 'b list"

text \<open>
  The state of the \<^verbatim>\<open>sqlite3\<close> library as far as the module uses it: the
  connection objects that are open, each with the file it was opened on, the
  handle the next \<^verbatim>\<open>connect\<close> returns, the tables of every file, and the
  largest number of parameters a statement may bind
  (\<^verbatim>\<open>SQLITE_MAX_VARIABLE_NUMBER\<close>, a setting of the library). The rows of a
  table are listed in insertion order; SQLite may answer \<^verbatim>\<open>SELECT key\<close> in
  another order, and the theorems below speak about the keys as a set and
  never depend on the order. The type \<open>'b\<close> stands for the values that SQLite
  binds and stores: a Python value that \<^verbatim>\<open>executemany\<close> refuses to bind (an
  integer outside 64 bits) is not a value of \<open>'b\<close>, and a key is a string
  the library can encode, so a failed write of that kind is outside the model. The pragmas and the indexes on the extra columns
  have no effect on what the statements return and are left out, as are the
  limit on the length of a statement and the file lock.
\<close>

record 'b sqlite3 =
  connections :: "conn \<rightharpoonup> path"
  next_conn :: conn
  tables :: "path \<times> string \<rightharpoonup> 'b row list"
  variable_limit :: nat

definition sqlite3_connect :: "'b sqlite3 \<Rightarrow> path \<Rightarrow> conn \<times> 'b sqlite3" where
  "sqlite3_connect s p =
     (next_conn s,
      s\<lparr>connections := (connections s)(next_conn s \<mapsto> p), next_conn := Suc (next_conn s)\<rparr>)"

definition sqlite3_close :: "'b sqlite3 \<Rightarrow> conn \<Rightarrow> 'b sqlite3" where
  "sqlite3_close s h = s\<lparr>connections := (connections s)(h := None)\<rparr>"

text \<open>
  \<^verbatim>\<open>self._conn.execute(...)\<close> on the table \<open>t\<close>: the attribute access fails when
  \<^verbatim>\<open>_conn\<close> is \<^verbatim>\<open>None\<close>, the library refuses a closed connection and a missing
  table; otherwise the statement, a function on the rows of the table, gives
  its result and the new rows.
\<close>

definition execute ::
  "'b sqlite3 \<Rightarrow> conn option \<Rightarrow> string \<Rightarrow> ('b row list \<Rightarrow> 'r \<times> 'b row list)
     \<Rightarrow> (error + 'r) \<times> 'b sqlite3" where
  "execute s c t stmt =
     (case c of
        None \<Rightarrow> (Inl AttributeError, s)
      | Some h \<Rightarrow>
          (case connections s h of
             None \<Rightarrow> (Inl ProgrammingError, s)
           | Some p \<Rightarrow>
               (case tables s (p, t) of
                  None \<Rightarrow> (Inl OperationalError, s)
                | Some rows \<Rightarrow>
                    (Inr (fst (stmt rows)),
                     s\<lparr>tables := (tables s)((p, t) \<mapsto> snd (stmt rows))\<rparr>))))"

text \<open>\<^verbatim>\<open>CREATE TABLE t (...)\<close>, without \<^verbatim>\<open>IF NOT EXISTS\<close>.\<close>

definition create_table :: "'b sqlite3 \<Rightarrow> conn option \<Rightarrow> string \<Rightarrow> (error + unit) \<times> 'b sqlite3" where
  "create_table s c t =
     (case c of
        None \<Rightarrow> (Inl AttributeError, s)
      | Some h \<Rightarrow>
          (case connections s h of
             None \<Rightarrow> (Inl ProgrammingError, s)
           | Some p \<Rightarrow>
               (case tables s (p, t) of
                  Some rows \<Rightarrow> (Inl OperationalError, s)
                | None \<Rightarrow> (Inr (), s\<lparr>tables := (tables s)((p, t) \<mapsto> [])\<rparr>))))"

text \<open>
  An ad-hoc query through \<^verbatim>\<open>self._conn.execute(query, params)\<close> followed by
  \<^verbatim>\<open>fetchall()\<close>: a function of the tables of the connection's file that
  gives the rows found or the error of the library (a \<^verbatim>\<open>SELECT\<close>; it changes
  nothing).
\<close>

definition execute_query ::
  "'b sqlite3 \<Rightarrow> conn option \<Rightarrow> ((string \<rightharpoonup> 'b row list) \<Rightarrow> error + 'r)
     \<Rightarrow> (error + 'r) \<times> 'b sqlite3" where
  "execute_query s c q =
     (case c of
        None \<Rightarrow> (Inl AttributeError, s)
      | Some h \<Rightarrow>
          (case connections s h of
             None \<Rightarrow> (Inl ProgrammingError, s)
           | Some p \<Rightarrow> (q (\<lambda>t. tables s (p, t)), s)))"


subsection \<open>The statements the module issues\<close>

text \<open>\<^verbatim>\<open>INSERT OR REPLACE\<close>: the row with the same primary key goes, the new row is added.\<close>

definition insert_or_replace :: "'b row \<Rightarrow> 'b row list \<Rightarrow> 'b row list" where
  "insert_or_replace r rows = filter (\<lambda>r'. fst r' \<noteq> fst r) rows @ [r]"

definition executemany_insert_or_replace :: "'b row list \<Rightarrow> 'b row list \<Rightarrow> unit \<times> 'b row list" where
  "executemany_insert_or_replace items rows = ((), foldl (\<lambda>rs r. insert_or_replace r rs) rows items)"

text \<open>\<^verbatim>\<open>SELECT value FROM t WHERE key = ?\<close> followed by \<^verbatim>\<open>fetchone()\<close>.\<close>

definition select_value :: "string \<Rightarrow> 'b row list \<Rightarrow> 'b option \<times> 'b row list" where
  "select_value k rows = (map_option (\<lambda>r. fst (snd r)) (find (\<lambda>r. fst r = k) rows), rows)"

text \<open>\<^verbatim>\<open>DELETE FROM t WHERE key = ?\<close>; the result is \<^verbatim>\<open>rowcount\<close>.\<close>

definition delete_where_key :: "string \<Rightarrow> 'b row list \<Rightarrow> nat \<times> 'b row list" where
  "delete_where_key k rows =
     (length (filter (\<lambda>r. fst r = k) rows), filter (\<lambda>r. fst r \<noteq> k) rows)"

text \<open>\<^verbatim>\<open>SELECT key FROM t\<close>.\<close>

definition select_keys :: "'b row list \<Rightarrow> string list \<times> 'b row list" where
  "select_keys rows = (map fst rows, rows)"

text \<open>\<^verbatim>\<open>SELECT COUNT(*) FROM t WHERE key NOT IN (?, ..., ?)\<close>.\<close>

definition count_not_in :: "string list \<Rightarrow> 'b row list \<Rightarrow> nat \<times> 'b row list" where
  "count_not_in ks rows = (length (filter (\<lambda>r. fst r \<notin> set ks) rows), rows)"

section \<open>The connection cache\<close>

text \<open>
  \<^verbatim>\<open>_SqliteConnectionCache\<close>: two dictionaries keyed by the file name, the
  reference count and the shared connection.
\<close>

record connection_cache =
  ref_count :: "path \<rightharpoonup> int"
  sqlite_connection_cache :: "path \<rightharpoonup> conn"

definition get_connection ::
  "connection_cache \<Rightarrow> 'b sqlite3 \<Rightarrow> path \<Rightarrow> (error + conn) \<times> connection_cache \<times> 'b sqlite3" where
  "get_connection cc s p =
     (let (cc1, s1) =
            (if p \<notin> dom (ref_count cc)
             then (cc\<lparr>ref_count := (ref_count cc)(p \<mapsto> 0),
                      sqlite_connection_cache :=
                        (sqlite_connection_cache cc)(p \<mapsto> fst (sqlite3_connect s p))\<rparr>,
                   snd (sqlite3_connect s p))
             else (cc, s))
      in case ref_count cc1 p of
           None \<Rightarrow> (Inl (KeyError p), cc1, s1)
         | Some n \<Rightarrow>
             (let cc2 = cc1\<lparr>ref_count := (ref_count cc1)(p \<mapsto> n + 1)\<rparr>
              in case sqlite_connection_cache cc2 p of
                   None \<Rightarrow> (Inl (KeyError p), cc2, s1)
                 | Some h \<Rightarrow> (Inr h, cc2, s1)))"

definition drop_connection ::
  "connection_cache \<Rightarrow> 'b sqlite3 \<Rightarrow> path \<Rightarrow> (error + unit) \<times> connection_cache \<times> 'b sqlite3" where
  "drop_connection cc s p =
     (case ref_count cc p of
        None \<Rightarrow> (Inl (KeyError p), cc, s)
      | Some n \<Rightarrow>
          (let cc1 = cc\<lparr>ref_count := (ref_count cc)(p \<mapsto> n - 1)\<rparr>
           in if n - 1 = 0
              then (case sqlite_connection_cache cc1 p of
                      None \<Rightarrow> (Inl (KeyError p), cc1, s)
                    | Some h \<Rightarrow>
                        (Inr (),
                         cc1\<lparr>sqlite_connection_cache := (sqlite_connection_cache cc1)(p := None),
                             ref_count := (ref_count cc1)(p := None)\<rparr>,
                         sqlite3_close s h))
              else (Inr (), cc1, s)))"

section \<open>FileBackedDict\<close>

text \<open>
  The in-memory cache is an \<^verbatim>\<open>OrderedDict\<close>: an association list with the
  oldest entry first. Assigning to a key that is present keeps its position,
  a new key goes to the end; \<^verbatim>\<open>move_to_end\<close> moves an entry to the end;
  \<^verbatim>\<open>popitem(last=False)\<close> takes the first entry.
\<close>

definition od_contains :: "string \<Rightarrow> (string \<times> 'v) list \<Rightarrow> bool" where
  "od_contains k c = (k \<in> set (map fst c))"

definition od_setitem :: "string \<Rightarrow> 'v \<Rightarrow> (string \<times> 'v) list \<Rightarrow> (string \<times> 'v) list" where
  "od_setitem k v c =
     (if od_contains k c then map (\<lambda>e. if fst e = k then (k, v) else e) c else c @ [(k, v)])"

definition od_move_to_end :: "string \<Rightarrow> (string \<times> 'v) list \<Rightarrow> (string \<times> 'v) list" where
  "od_move_to_end k c = filter (\<lambda>e. fst e \<noteq> k) c @ filter (\<lambda>e. fst e = k) c"

definition od_delitem :: "string \<Rightarrow> (string \<times> 'v) list \<Rightarrow> (string \<times> 'v) list" where
  "od_delitem k c = filter (\<lambda>e. fst e \<noteq> k) c"

record ('v, 'b) FileBackedDict =
  filename :: path
  tablename :: string
  serializer :: "'v \<Rightarrow> 'b"
  deserializer :: "'b \<Rightarrow> 'v"
  extra_columns :: "(string \<times> ('v \<Rightarrow> 'b)) list"
  cache_max_size :: int
  cache_eviction_batch_size :: int
  conn :: "conn option"
  active_object_cache :: "(string \<times> 'v) list"

text \<open>The tuple \<^verbatim>\<open>_prune_cache\<close> writes for one cache entry.\<close>

definition row_of :: "('v, 'b) FileBackedDict \<Rightarrow> string \<times> 'v \<Rightarrow> 'b row" where
  "row_of d e = (fst e, serializer d (snd e), map (\<lambda>c. snd c (snd e)) (extra_columns d))"

text \<open>
  \<^verbatim>\<open>__post_init__\<close>, applied to the fields the caller gave. After the
  assertions it takes the shared connection, starts with an empty cache and
  creates the table. When \<^verbatim>\<open>CREATE TABLE\<close> fails the reference taken stays
  counted; the finalizer of the discarded object is not part of the model.
\<close>

definition post_init ::
  "connection_cache \<Rightarrow> 'b sqlite3 \<Rightarrow> ('v, 'b) FileBackedDict
     \<Rightarrow> (error + unit) \<times> connection_cache \<times> 'b sqlite3 \<times> ('v, 'b) FileBackedDict" where
  "post_init cc s d =
     (if \<not> cache_eviction_batch_size d > 0 then (Inl AssertionError, cc, s, d)
      else if ''key'' \<in> set (map fst (extra_columns d)) then (Inl AssertionError, cc, s, d)
      else if ''value'' \<in> set (map fst (extra_columns d)) then (Inl AssertionError, cc, s, d)
      else
        (case get_connection cc s (filename d) of
           (Inl e, cc1, s1) \<Rightarrow> (Inl e, cc1, s1, d)
         | (Inr h, cc1, s1) \<Rightarrow>
             (let d1 = d\<lparr>conn := Some h, active_object_cache := []\<rparr>
              in case create_table s1 (conn d1) (tablename d1) of
                   (Inl e, s2) \<Rightarrow> (Inl e, cc1, s2, d1)
                 | (Inr u, s2) \<Rightarrow> (Inr (), cc1, s2, d1))))"

text \<open>
  The loop of \<^verbatim>\<open>_prune_cache\<close>: \<open>n\<close> times \<^verbatim>\<open>popitem(last=False)\<close>, which
  raises \<^verbatim>\<open>KeyError\<close> on an empty dictionary, collecting the tuples to write.
  The entries leave the cache before the statement runs; when the statement
  fails they are neither in the cache nor in the table.
\<close>

fun pop_items ::
  "nat \<Rightarrow> ('v, 'b) FileBackedDict \<Rightarrow> 'b row list
     \<Rightarrow> (error + 'b row list) \<times> ('v, 'b) FileBackedDict" where
  "pop_items 0 d items = (Inr items, d)"
| "pop_items (Suc n) d items =
     (case active_object_cache d of
        [] \<Rightarrow> (Inl (KeyError ''dictionary is empty''), d)
      | e # c \<Rightarrow> pop_items n (d\<lparr>active_object_cache := c\<rparr>) (items @ [row_of d e]))"

definition prune_cache ::
  "'b sqlite3 \<Rightarrow> ('v, 'b) FileBackedDict \<Rightarrow> int
     \<Rightarrow> (error + unit) \<times> 'b sqlite3 \<times> ('v, 'b) FileBackedDict" where
  "prune_cache s d num_items_to_prune =
     (case pop_items (nat num_items_to_prune) d [] of
        (Inl e, d1) \<Rightarrow> (Inl e, s, d1)
      | (Inr items_to_write, d1) \<Rightarrow>
          (case execute s (conn d1) (tablename d1) (executemany_insert_or_replace items_to_write) of
             (Inl e, s1) \<Rightarrow> (Inl e, s1, d1)
           | (Inr u, s1) \<Rightarrow> (Inr (), s1, d1)))"

definition add_to_cache ::
  "'b sqlite3 \<Rightarrow> ('v, 'b) FileBackedDict \<Rightarrow> string \<Rightarrow> 'v
     \<Rightarrow> (error + unit) \<times> 'b sqlite3 \<times> ('v, 'b) FileBackedDict" where
  "add_to_cache s d k v =
     (let d1 = d\<lparr>active_object_cache := od_setitem k v (active_object_cache d)\<rparr>
      in if int (length (active_object_cache d1)) > cache_max_size d1
         then prune_cache s d1
                (min (int (length (active_object_cache d1))) (cache_eviction_batch_size d1))
         else (Inr (), s, d1))"

definition flush ::
  "'b sqlite3 \<Rightarrow> ('v, 'b) FileBackedDict \<Rightarrow> (error + unit) \<times> 'b sqlite3 \<times> ('v, 'b) FileBackedDict" where
  "flush s d = prune_cache s d (int (length (active_object_cache d)))"

definition getitem ::
  "'b sqlite3 \<Rightarrow> ('v, 'b) FileBackedDict \<Rightarrow> string
     \<Rightarrow> (error + 'v) \<times> 'b sqlite3 \<times> ('v, 'b) FileBackedDict" where
  "getitem s d k =
     (if od_contains k (active_object_cache d)
      then (let d1 = d\<lparr>active_object_cache := od_move_to_end k (active_object_cache d)\<rparr>
            in case map_of (active_object_cache d1) k of
                 None \<Rightarrow> (Inl (KeyError k), s, d1)
               | Some v \<Rightarrow> (Inr v, s, d1))
      else
        (case execute s (conn d) (tablename d) (select_value k) of
           (Inl e, s1) \<Rightarrow> (Inl e, s1, d)
         | (Inr None, s1) \<Rightarrow> (Inl (KeyError k), s1, d)
         | (Inr (Some result), s1) \<Rightarrow>
             (let deserialized_result = deserializer d result
              in case add_to_cache s1 d k deserialized_result of
                   (Inl e, s2, d2) \<Rightarrow> (Inl e, s2, d2)
                 | (Inr u, s2, d2) \<Rightarrow> (Inr deserialized_result, s2, d2))))"

definition setitem ::
  "'b sqlite3 \<Rightarrow> ('v, 'b) FileBackedDict \<Rightarrow> string \<Rightarrow> 'v
     \<Rightarrow> (error + unit) \<times> 'b sqlite3 \<times> ('v, 'b) FileBackedDict" where
  "setitem s d k v = add_to_cache s d k v"

definition delitem ::
  "'b sqlite3 \<Rightarrow> ('v, 'b) FileBackedDict \<Rightarrow> string
     \<Rightarrow> (error + unit) \<times> 'b sqlite3 \<times> ('v, 'b) FileBackedDict" where
  "delitem s d k =
     (let in_cache = od_contains k (active_object_cache d);
          d1 = (if in_cache
                then d\<lparr>active_object_cache := od_delitem k (active_object_cache d)\<rparr>
                else d)
      in case execute s (conn d1) (tablename d1) (delete_where_key k) of
           (Inl e, s1) \<Rightarrow> (Inl e, s1, d1)
         | (Inr n_deleted, s1) \<Rightarrow>
             (if \<not> in_cache \<and> n_deleted = 0 then (Inl (KeyError k), s1, d1)
              else (Inr (), s1, d1)))"

text \<open>
  \<^verbatim>\<open>__iter__\<close> is a generator; the model gives the keys it yields when it is
  run to its end with no other operation in between.
\<close>

definition iter ::
  "'b sqlite3 \<Rightarrow> ('v, 'b) FileBackedDict \<Rightarrow> (error + string list) \<times> 'b sqlite3" where
  "iter s d =
     (case execute s (conn d) (tablename d) select_keys of
        (Inl e, s1) \<Rightarrow> (Inl e, s1)
      | (Inr ks, s1) \<Rightarrow>
          (Inr (filter (\<lambda>k. \<not> od_contains k (active_object_cache d)) ks
                @ map fst (active_object_cache d)), s1))"

text \<open>
  \<^verbatim>\<open>__len__\<close> binds one parameter for every key of the cache; the library
  refuses the statement (\<^verbatim>\<open>too many SQL variables\<close>) when there are more of
  them than its limit.
\<close>

definition len :: "'b sqlite3 \<Rightarrow> ('v, 'b) FileBackedDict \<Rightarrow> (error + int) \<times> 'b sqlite3" where
  "len s d =
     (case execute s (conn d) (tablename d) (count_not_in (map fst (active_object_cache d))) of
        (Inl e, s1) \<Rightarrow> (Inl e, s1)
      | (Inr n, s1) \<Rightarrow>
          (if variable_limit s < length (active_object_cache d) then Inl OperationalError
           else Inr (int n + int (length (active_object_cache d))),
           s1))"

text \<open>
  \<^verbatim>\<open>sql_query\<close>: flush this collection, then the referenced ones in order, then
  run the query on the shared connection.
\<close>

fun flush_refs ::
  "'b sqlite3 \<Rightarrow> ('w, 'b) FileBackedDict list
     \<Rightarrow> (error + unit) \<times> 'b sqlite3 \<times> ('w, 'b) FileBackedDict list" where
  "flush_refs s [] = (Inr (), s, [])"
| "flush_refs s (r # rs) =
     (case flush s r of
        (Inl e, s1, r1) \<Rightarrow> (Inl e, s1, r1 # rs)
      | (Inr u, s1, r1) \<Rightarrow>
          (case flush_refs s1 rs of (res, s2, rs1) \<Rightarrow> (res, s2, r1 # rs1)))"

definition sql_query ::
  "'b sqlite3 \<Rightarrow> ('v, 'b) FileBackedDict \<Rightarrow> ((string \<rightharpoonup> 'b row list) \<Rightarrow> error + 'r)
     \<Rightarrow> ('w, 'b) FileBackedDict list
     \<Rightarrow> (error + 'r) \<times> 'b sqlite3 \<times> ('v, 'b) FileBackedDict \<times> ('w, 'b) FileBackedDict list" where
  "sql_query s d query refs =
     (case flush s d of
        (Inl e, s1, d1) \<Rightarrow> (Inl e, s1, d1, refs)
      | (Inr u, s1, d1) \<Rightarrow>
          (case flush_refs s1 refs of
             (Inl e, s2, refs1) \<Rightarrow> (Inl e, s2, d1, refs1)
           | (Inr u, s2, refs1) \<Rightarrow>
               (case execute_query s2 (conn d1) query of (res, s3) \<Rightarrow> (res, s3, d1, refs1))))"

definition close ::
  "connection_cache \<Rightarrow> 'b sqlite3 \<Rightarrow> ('v, 'b) FileBackedDict
     \<Rightarrow> (error + unit) \<times> connection_cache \<times> 'b sqlite3 \<times> ('v, 'b) FileBackedDict" where
  "close cc s d =
     (case conn d of
        None \<Rightarrow> (Inr (), cc, s, d)
      | Some h \<Rightarrow>
          (case flush s d of
             (Inl e, s1, d1) \<Rightarrow> (Inl e, cc, s1, d1)
           | (Inr u, s1, d1) \<Rightarrow>
               (case drop_connection cc s1 (filename d1) of
                  (Inl e, cc1, s2) \<Rightarrow> (Inl e, cc1, s2, d1)
                | (Inr u, cc1, s2) \<Rightarrow>
                    (Inr (), cc1, s2, d1\<lparr>conn := None, cache_max_size := 0\<rparr>))))"

text \<open>
  The constructor of the dataclass: the caller's fields, then \<^verbatim>\<open>__post_init__\<close>.
  The two fields declared \<^verbatim>\<open>init=False\<close> are unset until then; the record
  carries \<open>None\<close> and the empty list for them.
\<close>

definition FileBackedDict_init ::
  "connection_cache \<Rightarrow> 'b sqlite3 \<Rightarrow> path \<Rightarrow> string \<Rightarrow> ('v \<Rightarrow> 'b) \<Rightarrow> ('b \<Rightarrow> 'v)
     \<Rightarrow> (string \<times> ('v \<Rightarrow> 'b)) list \<Rightarrow> int \<Rightarrow> int
     \<Rightarrow> (error + unit) \<times> connection_cache \<times> 'b sqlite3 \<times> ('v, 'b) FileBackedDict" where
  "FileBackedDict_init cc s fn tn ser deser extra max_size batch_size =
     post_init cc s
       \<lparr>filename = fn, tablename = tn, serializer = ser, deserializer = deser,
        extra_columns = extra, cache_max_size = max_size,
        cache_eviction_batch_size = batch_size, conn = None, active_object_cache = []\<rparr>"

text \<open>
  A caller's calls on one collection, each going on from the state the one
  before left, also when that one raised.
\<close>

datatype 'v operation =
    Get string
  | Set string 'v
  | Delete string
  | Flush
  | Iterate
  | Length

fun operation_key :: "'v operation \<Rightarrow> string option" where
  "operation_key (Get k) = Some k"
| "operation_key (Set k v) = Some k"
| "operation_key (Delete k) = Some k"
| "operation_key Flush = None"
| "operation_key Iterate = None"
| "operation_key Length = None"

fun apply_operation ::
  "'b sqlite3 \<times> ('v, 'b) FileBackedDict \<Rightarrow> 'v operation \<Rightarrow> 'b sqlite3 \<times> ('v, 'b) FileBackedDict" where
  "apply_operation (s, d) (Get k) = snd (getitem s d k)"
| "apply_operation (s, d) (Set k v) = snd (setitem s d k v)"
| "apply_operation (s, d) (Delete k) = snd (delitem s d k)"
| "apply_operation (s, d) Flush = snd (flush s d)"
| "apply_operation (s, d) Iterate = (snd (iter s d), d)"
| "apply_operation (s, d) Length = (snd (len s d), d)"

definition run_operations ::
  "'b sqlite3 \<times> ('v, 'b) FileBackedDict \<Rightarrow> 'v operation list \<Rightarrow> 'b sqlite3 \<times> ('v, 'b) FileBackedDict" where
  "run_operations sd ops = foldl apply_operation sd ops"

section \<open>FileBackedList\<close>











section \<open>Reading the state\<close>

text \<open>
  The rows of the collection's table as its connection sees them, if the
  connection is open and the table exists; and the state with those rows replaced.
\<close>

definition table_of :: "'b sqlite3 \<Rightarrow> ('v, 'b) FileBackedDict \<Rightarrow> 'b row list option" where
  "table_of s d =
     (case conn d of
        None \<Rightarrow> None
      | Some h \<Rightarrow> (case connections s h of None \<Rightarrow> None | Some p \<Rightarrow> tables s (p, tablename d)))"

definition with_table :: "'b sqlite3 \<Rightarrow> ('v, 'b) FileBackedDict \<Rightarrow> 'b row list \<Rightarrow> 'b sqlite3" where
  "with_table s d rows =
     (case conn d of
        None \<Rightarrow> s
      | Some h \<Rightarrow>
          (case connections s h of
             None \<Rightarrow> s
           | Some p \<Rightarrow> s\<lparr>tables := (tables s)((p, tablename d) \<mapsto> rows)\<rparr>))"

definition cache_keys :: "('v, 'b) FileBackedDict \<Rightarrow> string list" where
  "cache_keys d = map fst (active_object_cache d)"

definition store_keys :: "'b sqlite3 \<Rightarrow> ('v, 'b) FileBackedDict \<Rightarrow> string list" where
  "store_keys s d = (case table_of s d of None \<Rightarrow> [] | Some rows \<Rightarrow> map fst rows)"

text \<open>
  The number of entries \<^verbatim>\<open>_add_to_cache\<close> evicts once the cache holds \<open>c\<close>.
\<close>

definition eviction_count :: "('v, 'b) FileBackedDict \<Rightarrow> (string \<times> 'v) list \<Rightarrow> nat" where
  "eviction_count d c =
     (if int (length c) > cache_max_size d
      then nat (min (int (length c)) (cache_eviction_batch_size d))
      else 0)"

text \<open>Every cache entry for the key \<open>k\<close> carries the value \<open>v\<close>.\<close>

definition key_holds :: "string \<Rightarrow> 'v \<Rightarrow> (string \<times> 'v) list \<Rightarrow> bool" where
  "key_holds k v c = (\<forall>e \<in> set c. fst e = k \<longrightarrow> snd e = v)"

text \<open>
  The module-level singleton \<^verbatim>\<open>_sqlite_connection_cache = _SqliteConnectionCache()\<close>
  as the import leaves it, and a library state with no connection and no table.
\<close>

definition initial_connection_cache :: connection_cache where
  "initial_connection_cache = \<lparr>ref_count = Map.empty, sqlite_connection_cache = Map.empty\<rparr>"

definition no_files :: "'b sqlite3" where
  "no_files =
     \<lparr>connections = Map.empty, next_conn = 0, tables = Map.empty, variable_limit = 999\<rparr>"

text \<open>
  A small collection for the examples: values are numbers, stored as they
  are, with a cache of at most two entries that evicts one entry at a time.
\<close>

definition small_dict ::
  "(error + unit) \<times> connection_cache \<times> nat sqlite3 \<times> (nat, nat) FileBackedDict" where
  "small_dict =
     FileBackedDict_init initial_connection_cache no_files ''f'' ''t'' (\<lambda>v. v) (\<lambda>b. b) [] 2 1"

text \<open>
  The value \<open>v\<close> of the key \<open>k\<close> is kept: the collection is usable, the cache
  entries for \<open>k\<close> carry \<open>v\<close>, the key is in the cache or in the table, and
  when it is not in the cache its rows carry the serialized \<open>v\<close>.
\<close>

definition value_kept :: "string \<Rightarrow> 'v \<Rightarrow> 'b sqlite3 \<Rightarrow> ('v, 'b) FileBackedDict \<Rightarrow> bool" where
  "value_kept k v s d =
     (case table_of s d of
        None \<Rightarrow> False
      | Some rows \<Rightarrow>
          key_holds k v (active_object_cache d)
          \<and> (od_contains k (active_object_cache d) \<or> k \<in> fst ` set rows)
          \<and> (\<not> od_contains k (active_object_cache d) \<longrightarrow>
               (\<forall>r \<in> set rows. fst r = k \<longrightarrow> fst (snd r) = serializer d v)))"

text \<open>
  The state of a usable collection: its connection is open, its table exists,
  and no key occurs twice in the table (the primary key) or in the cache.
\<close>

definition consistent :: "'b sqlite3 \<Rightarrow> ('v, 'b) FileBackedDict \<Rightarrow> bool" where
  "consistent s d =
     (case table_of s d of
        None \<Rightarrow> False
      | Some rows \<Rightarrow> distinct (map fst rows) \<and> distinct (map fst (active_object_cache d)))"

text \<open>The live keys: those in the cache or in the table.\<close>

definition live_keys :: "'b sqlite3 \<Rightarrow> ('v, 'b) FileBackedDict \<Rightarrow> string set" where
  "live_keys s d = set (cache_keys d) \<union> set (store_keys s d)"

text \<open>
  The keys of a plain dictionary that starts empty and takes the same calls:
  an assignment adds its key, a deletion removes it.
\<close>

fun dict_keys_step :: "string set \<Rightarrow> 'v operation \<Rightarrow> string set" where
  "dict_keys_step K (Set k v) = insert k K"
| "dict_keys_step K (Delete k) = K - {k}"
| "dict_keys_step K (Get k) = K"
| "dict_keys_step K Flush = K"
| "dict_keys_step K Iterate = K"
| "dict_keys_step K Length = K"

definition dict_keys_after :: "'v operation list \<Rightarrow> string set" where
  "dict_keys_after ops = foldl dict_keys_step {} ops"


text \<open>The key \<open>k\<close> is the most recently used entry of the cache \<open>c\<close>.\<close>

definition most_recent :: "string \<Rightarrow> (string \<times> 'v) list \<Rightarrow> bool" where
  "most_recent k c = (c \<noteq> [] \<and> fst (last c) = k)"

text \<open>A collection whose eviction batch is larger than its cache.\<close>

definition batch_dict ::
  "(error + unit) \<times> connection_cache \<times> nat sqlite3 \<times> (nat, nat) FileBackedDict" where
  "batch_dict =
     FileBackedDict_init initial_connection_cache no_files ''f'' ''t'' (\<lambda>v. v) (\<lambda>b. b) [] 1 2"

text \<open>
  The state of the connection cache that the module keeps: a path has a
  count exactly when it has a connection, every count is at least one, the
  registered connection of a path is open on that path and no other
  connection is open, and handles not yet given out are not open.
\<close>

definition registry_inv :: "connection_cache \<Rightarrow> 'b sqlite3 \<Rightarrow> bool" where
  "registry_inv cc s =
     ((\<forall>p. (ref_count cc p = None) = (sqlite_connection_cache cc p = None))
      \<and> (\<forall>p n. ref_count cc p = Some n \<longrightarrow> 1 \<le> n)
      \<and> (\<forall>p h. (sqlite_connection_cache cc p = Some h) = (connections s h = Some p))
      \<and> (\<forall>h. next_conn s \<le> h \<longrightarrow> connections s h = None))"





text \<open>The tables a statement on the collection's connection can see.\<close>

definition visible_tables :: "'b sqlite3 \<Rightarrow> ('v, 'b) FileBackedDict \<Rightarrow> (string \<rightharpoonup> 'b row list)" where
  "visible_tables s d =
     (case conn d of
        None \<Rightarrow> Map.empty
      | Some h \<Rightarrow> (case connections s h of None \<Rightarrow> Map.empty | Some p \<Rightarrow> (\<lambda>t. tables s (p, t))))"




text \<open>
  A collection in a library whose statements bind one parameter at most
  (the limit can be lowered with \<^verbatim>\<open>Connection.setlimit\<close>).
\<close>

definition narrow_dict ::
  "(error + unit) \<times> connection_cache \<times> nat sqlite3 \<times> (nat, nat) FileBackedDict" where
  "narrow_dict =
     FileBackedDict_init initial_connection_cache (no_files\<lparr>variable_limit := 1\<rparr>) ''f'' ''t''
       (\<lambda>v. v) (\<lambda>b. b) [] 2 1"


section \<open>What each operation does to the collection\<close>

lemma pop_items_numeral:
  "pop_items (numeral n) d items = pop_items (Suc (pred_numeral n)) d items"
  by (simp only: numeral_eq_Suc)

lemmas eval_defs =
  pop_items_numeral
  FileBackedDict_init_def post_init_def get_connection_def drop_connection_def
  sqlite3_connect_def sqlite3_close_def create_table_def execute_def execute_query_def
  insert_or_replace_def executemany_insert_or_replace_def select_value_def delete_where_key_def
  select_keys_def count_not_in_def od_contains_def od_setitem_def od_move_to_end_def od_delitem_def
  row_of_def prune_cache_def add_to_cache_def flush_def getitem_def setitem_def delitem_def
  iter_def len_def sql_query_def close_def run_operations_def
  initial_connection_cache_def no_files_def small_dict_def Let_def

lemma table_of_cache_upd [simp]:
  "table_of s (d\<lparr>active_object_cache := c\<rparr>) = table_of s d"
  by (simp add: table_of_def split: option.splits)

lemma with_table_cache_upd [simp]:
  "with_table s (d\<lparr>active_object_cache := c\<rparr>) rows = with_table s d rows"
  by (simp add: with_table_def split: option.splits)

lemma row_of_cache_upd [simp]:
  "row_of (d\<lparr>active_object_cache := c\<rparr>) = row_of d"
  by (simp add: row_of_def fun_eq_iff)

lemma execute_open:
  "table_of s d = Some rows \<Longrightarrow>
   execute s (conn d) (tablename d) stmt = (Inr (fst (stmt rows)), with_table s d (snd (stmt rows)))"
  by (auto simp: table_of_def execute_def with_table_def split: option.splits)

lemma table_of_with_table:
  "table_of s d = Some rows \<Longrightarrow> table_of (with_table s d rows') d = Some rows'"
  by (auto simp: table_of_def with_table_def split: option.splits)

lemma with_table_same:
  "table_of s d = Some rows \<Longrightarrow> with_table s d rows = s"
  by (auto simp: table_of_def with_table_def map_upd_triv split: option.splits)

text \<open>The loop pops the first \<open>n\<close> entries, oldest first, when there are that many.\<close>

lemma pop_items_take:
  "n \<le> length (active_object_cache d) \<Longrightarrow>
   pop_items n d items =
     (Inr (items @ map (row_of d) (take n (active_object_cache d))),
      d\<lparr>active_object_cache := drop n (active_object_cache d)\<rparr>)"
proof (induction n arbitrary: d items)
  case 0
  then show ?case by simp
next
  case (Suc n)
  then obtain e c where c: "active_object_cache d = e # c"
    by (cases "active_object_cache d") auto
  with Suc.prems have "n \<le> length (active_object_cache (d\<lparr>active_object_cache := c\<rparr>))"
    by simp
  from Suc.IH [OF this] c show ?case by simp
qed

lemma prune_cache_open:
  assumes "table_of s d = Some rows" and "nat n \<le> length (active_object_cache d)"
  shows "prune_cache s d n =
     (Inr (),
      with_table s d (snd (executemany_insert_or_replace
                             (map (row_of d) (take (nat n) (active_object_cache d))) rows)),
      d\<lparr>active_object_cache := drop (nat n) (active_object_cache d)\<rparr>)"
  using pop_items_take [OF assms(2), of "[]"] assms(1)
  by (simp add: prune_cache_def
      execute_open [where d = "d\<lparr>active_object_cache := drop (nat n) (active_object_cache d)\<rparr>",
        simplified])

lemma eviction_count_le: "eviction_count d c \<le> length c"
  by (auto simp: eviction_count_def min_def)

lemma eviction_count_cache_upd [simp]:
  "eviction_count (d\<lparr>active_object_cache := c'\<rparr>) c = eviction_count d c"
  by (simp add: eviction_count_def)

text \<open>
  The collection an operation leaves behind, whether the statement on the
  connection went through or not: only the cache changes.
\<close>

lemma prune_cache_dict:
  assumes "nat n \<le> length (active_object_cache d)"
  shows "snd (snd (prune_cache s d n)) =
           d\<lparr>active_object_cache := drop (nat n) (active_object_cache d)\<rparr>"
  using pop_items_take [OF assms, of "[]"]
  by (simp add: prune_cache_def split: prod.splits sum.splits)

lemma add_to_cache_dict:
  "snd (snd (add_to_cache s d k v)) =
     d\<lparr>active_object_cache :=
         drop (eviction_count d (od_setitem k v (active_object_cache d)))
              (od_setitem k v (active_object_cache d))\<rparr>"
proof -
  let ?c = "od_setitem k v (active_object_cache d)"
  let ?d1 = "d\<lparr>active_object_cache := ?c\<rparr>"
  show ?thesis
  proof (cases "int (length ?c) > cache_max_size d")
    case True
    have "nat (min (int (length ?c)) (cache_eviction_batch_size d))
            \<le> length (active_object_cache ?d1)"
      by simp
    from prune_cache_dict [OF this, of s] True show ?thesis
      by (simp add: add_to_cache_def eviction_count_def Let_def)
  next
    case False
    then show ?thesis by (simp add: add_to_cache_def eviction_count_def Let_def)
  qed
qed

lemma flush_dict: "snd (snd (flush s d)) = d\<lparr>active_object_cache := []\<rparr>"
  using prune_cache_dict [of "int (length (active_object_cache d))" d s]
  by (simp add: flush_def)

lemma delitem_dict:
  "snd (snd (delitem s d k)) = d\<lparr>active_object_cache := od_delitem k (active_object_cache d)\<rparr>"
proof -
  have "\<not> od_contains k c \<Longrightarrow> od_delitem k c = c" for c :: "(string \<times> 'a) list"
    by (induction c) (auto simp: od_contains_def od_delitem_def)
  then show ?thesis
    by (auto simp: delitem_def Let_def split: prod.splits sum.splits)
qed

lemma getitem_dict:
  "snd (snd (getitem s d k)) =
     (if od_contains k (active_object_cache d)
      then d\<lparr>active_object_cache := od_move_to_end k (active_object_cache d)\<rparr>
      else case fst (execute s (conn d) (tablename d) (select_value k)) of
             Inr (Some b) \<Rightarrow>
               d\<lparr>active_object_cache :=
                   drop (eviction_count d (od_setitem k (deserializer d b) (active_object_cache d)))
                        (od_setitem k (deserializer d b) (active_object_cache d))\<rparr>
           | _ \<Rightarrow> d)"
  using add_to_cache_dict [of _ d k]
  apply (auto simp: getitem_def Let_def split: prod.splits sum.splits option.splits)
  apply (metis snd_conv)+
  done

section \<open>A value that is set stays in front of the store\<close>

lemma key_holds_drop: "key_holds k v c \<Longrightarrow> key_holds k v (drop n c)"
  by (auto simp: key_holds_def dest: in_set_dropD)

lemma key_holds_setitem_same: "key_holds k v (od_setitem k v c)"
  by (auto simp: key_holds_def od_setitem_def od_contains_def)

lemma key_holds_setitem_other:
  "k' \<noteq> k \<Longrightarrow> key_holds k v c \<Longrightarrow> key_holds k v (od_setitem k' v' c)"
  by (auto simp: key_holds_def od_setitem_def od_contains_def)

lemma key_holds_move_to_end: "key_holds k v c \<Longrightarrow> key_holds k v (od_move_to_end k' c)"
  by (auto simp: key_holds_def od_move_to_end_def)

lemma key_holds_delitem: "key_holds k v c \<Longrightarrow> key_holds k v (od_delitem k' c)"
  by (auto simp: key_holds_def od_delitem_def)

lemma key_holds_map_of:
  "od_contains k c \<Longrightarrow> key_holds k v c \<Longrightarrow> map_of c k = Some v"
  by (induction c) (auto simp: key_holds_def od_contains_def)

lemma od_contains_move_to_end [simp]: "od_contains k (od_move_to_end k' c) = od_contains k c"
  by (auto simp: od_contains_def od_move_to_end_def)

lemma getitem_cached:
  assumes "od_contains k (active_object_cache d)" and "key_holds k v (active_object_cache d)"
  shows "getitem s d k =
           (Inr v, s, d\<lparr>active_object_cache := od_move_to_end k (active_object_cache d)\<rparr>)"
proof -
  have "map_of (od_move_to_end k (active_object_cache d)) k = Some v"
    using assms by (intro key_holds_map_of key_holds_move_to_end) simp_all
  with assms(1) show ?thesis by (simp add: getitem_def Let_def)
qed

lemma apply_operation_key_holds:
  assumes "operation_key op \<noteq> Some k" and "key_holds k v (active_object_cache d)"
  shows "key_holds k v (active_object_cache (snd (apply_operation (s, d) op)))"
proof (cases op)
  case (Get k')
  with assms show ?thesis
    by (auto simp: getitem_dict key_holds_move_to_end key_holds_drop key_holds_setitem_other
        split: sum.splits option.splits)
next
  case (Set k' v')
  with assms show ?thesis
    by (simp add: setitem_def add_to_cache_dict key_holds_drop key_holds_setitem_other)
next
  case (Delete k')
  with assms show ?thesis by (simp add: delitem_dict key_holds_delitem)
next
  case Flush
  then show ?thesis by (simp add: flush_dict key_holds_def)
qed (use assms in simp_all)

lemma run_operations_key_holds:
  assumes "\<forall>op \<in> set ops. operation_key op \<noteq> Some k"
    and "key_holds k v (active_object_cache (snd sd))"
  shows "key_holds k v (active_object_cache (snd (run_operations sd ops)))"
  using assms
proof (induction ops arbitrary: sd)
  case Nil
  then show ?case by (simp add: run_operations_def)
next
  case (Cons op ops)
  obtain s d where sd: "sd = (s, d)" by (cases sd)
  from Cons.prems have "key_holds k v (active_object_cache (snd (apply_operation (s, d) op)))"
    by (intro apply_operation_key_holds) (simp_all add: sd)
  with Cons.IH [of "apply_operation sd op"] Cons.prems(1) sd show ?case
    by (simp add: run_operations_def)
qed

text \<open>
  C1. After \<^verbatim>\<open>d[k] = v\<close>, and after any further calls on other keys, a key
  \<open>k\<close> that is still in the cache reads as \<open>v\<close>, whatever the table holds for it.
\<close>

theorem cache_overrides_store:
  assumes "setitem s d k v = (r, s1, d1)"
    and "\<forall>op \<in> set ops. operation_key op \<noteq> Some k"
    and "run_operations (s1, d1) ops = (s2, d2)"
    and "od_contains k (active_object_cache d2)"
  shows "fst (getitem s2 d2 k) = Inr v"
proof -
  have "d1 = snd (snd (setitem s d k v))" using assms(1) by simp
  then have "key_holds k v (active_object_cache d1)"
    by (simp add: setitem_def add_to_cache_dict key_holds_drop key_holds_setitem_same)
  with run_operations_key_holds [OF assms(2), of v "(s1, d1)"] assms(3)
  have "key_holds k v (active_object_cache d2)" by simp
  with assms(4) show ?thesis by (simp add: getitem_cached)
qed

text \<open>
  An instance: the table holds 1 for the key, written by an earlier flush; the
  key is set to 5 and other calls follow; it still reads as 5, from the cache.
\<close>

theorem cache_overrides_store_witness:
  "(let sd0 = run_operations (snd (snd small_dict)) [Set ''a'' 1, Flush];
        x = setitem (fst sd0) (snd sd0) ''a'' 5;
        ops = [Set ''b'' 7, Get ''b'', Length];
        sd2 = run_operations (snd x) ops
    in table_of (fst sd2) (snd sd2) = Some [(''a'', 1, [])]
       \<and> (\<forall>op \<in> set ops. operation_key op \<noteq> Some ''a'')
       \<and> od_contains ''a'' (active_object_cache (snd sd2))
       \<and> fst (getitem (fst sd2) (snd sd2) ''a'') = Inr 5)"
proof -
  let ?sd0 = "run_operations (snd (snd small_dict)) [Set ''a'' 1, Flush]"
  let ?x = "setitem (fst ?sd0) (snd ?sd0) ''a'' 5"
  let ?ops = "[Set ''b'' 7, Get ''b'', Length]"
  let ?sd2 = "run_operations (snd ?x) ?ops"
  have set: "?x = (fst ?x, fst (snd ?x), snd (snd ?x))" by simp
  have others: "\<forall>op \<in> set ?ops. operation_key op \<noteq> Some ''a''" by simp
  have run: "run_operations (fst (snd ?x), snd (snd ?x)) ?ops = (fst ?sd2, snd ?sd2)" by simp
  have cached: "od_contains ''a'' (active_object_cache (snd ?sd2))"
    by (simp add: eval_defs)
  have stale: "table_of (fst ?sd2) (snd ?sd2) = Some [(''a'', 1, [])]"
    by (simp add: eval_defs table_of_def)
  from cache_overrides_store [OF set others run cached] others cached stale
  show ?thesis by (simp add: Let_def)
qed

section \<open>The cache stays within its bound\<close>

lemma od_setitem_length: "length (od_setitem k v c) \<le> Suc (length c)"
  by (simp add: od_setitem_def)

lemma od_setitem_nonempty: "od_setitem k v c \<noteq> []"
  by (auto simp: od_setitem_def od_contains_def)

lemma od_move_to_end_length [simp]: "length (od_move_to_end k c) = length c"
  by (induction c) (auto simp: od_move_to_end_def)

lemma od_delitem_length: "length (od_delitem k c) \<le> length c"
  by (simp add: od_delitem_def)

lemma eviction_restores_bound:
  assumes "1 \<le> cache_eviction_batch_size d" and "int (length c) \<le> cache_max_size d"
  shows "int (length (drop (eviction_count d (od_setitem k v c)) (od_setitem k v c)))
           \<le> cache_max_size d"
proof (cases "int (length (od_setitem k v c)) > cache_max_size d")
  case True
  have "length (od_setitem k v c) \<ge> 1"
    using od_setitem_nonempty [of k v c] by (cases "od_setitem k v c") auto
  with assms(1) have "eviction_count d (od_setitem k v c) \<ge> 1"
    using True by (simp add: eviction_count_def)
  with od_setitem_length [of k v c] assms(2) show ?thesis by simp
next
  case False
  then show ?thesis by (simp add: eviction_count_def)
qed

lemma apply_operation_frame:
  "snd (apply_operation (s, d) op) =
     d\<lparr>active_object_cache := active_object_cache (snd (apply_operation (s, d) op))\<rparr>"
  by (cases op)
    (simp_all add: getitem_dict setitem_def add_to_cache_dict delitem_dict flush_dict
      split: sum.splits option.splits)

lemma apply_operation_bounded:
  assumes "1 \<le> cache_eviction_batch_size d"
    and "int (length (active_object_cache d)) \<le> cache_max_size d"
  shows "int (length (active_object_cache (snd (apply_operation (s, d) op)))) \<le> cache_max_size d"
proof (cases op)
  case (Get k)
  have "int (length (active_object_cache (snd (snd (getitem s d k))))) \<le> cache_max_size d"
    unfolding getitem_dict
    using assms(2) eviction_restores_bound [OF assms, of k]
    by (simp split: sum.splits option.splits del: length_drop)
  then show ?thesis by (simp add: Get)
next
  case (Set k v)
  from eviction_restores_bound [OF assms, of k v] show ?thesis
    by (simp add: Set setitem_def add_to_cache_dict del: length_drop)
next
  case (Delete k)
  with assms(2) od_delitem_length [of k "active_object_cache d"] show ?thesis
    by (simp add: delitem_dict)
next
  case Flush
  with assms(2) show ?thesis by (simp add: flush_dict)
qed (use assms(2) in simp_all)

lemma run_operations_frame:
  "snd (run_operations (s, d) ops) =
     d\<lparr>active_object_cache := active_object_cache (snd (run_operations (s, d) ops))\<rparr>"
proof (induction ops arbitrary: s d)
  case Nil
  show ?case by (simp add: run_operations_def)
next
  case (Cons op ops)
  obtain s' d' where step: "apply_operation (s, d) op = (s', d')"
    by (cases "apply_operation (s, d) op")
  with apply_operation_frame [of s d op]
  have d': "d' = d\<lparr>active_object_cache := active_object_cache d'\<rparr>" by simp
  have "snd (run_operations (s', d') ops) =
          d'\<lparr>active_object_cache := active_object_cache (snd (run_operations (s', d') ops))\<rparr>"
    by (rule Cons.IH)
  also have "\<dots> = d\<lparr>active_object_cache := active_object_cache (snd (run_operations (s', d') ops))\<rparr>"
    by (subst d') simp
  finally show ?case using step by (simp add: run_operations_def)
qed

lemma run_operations_bounded:
  assumes "1 \<le> cache_eviction_batch_size d"
    and "int (length (active_object_cache d)) \<le> cache_max_size d"
  shows "int (length (active_object_cache (snd (run_operations (s, d) ops)))) \<le> cache_max_size d"
  using assms
proof (induction ops arbitrary: s d)
  case Nil
  then show ?case by (simp add: run_operations_def)
next
  case (Cons op ops)
  obtain s' d' where step: "apply_operation (s, d) op = (s', d')"
    by (cases "apply_operation (s, d) op")
  with apply_operation_frame [of s d op] apply_operation_bounded [OF Cons.prems, of s op]
  have d': "d' = d\<lparr>active_object_cache := active_object_cache d'\<rparr>"
    and b: "int (length (active_object_cache d')) \<le> cache_max_size d" by simp_all
  have cfg: "cache_eviction_batch_size d' = cache_eviction_batch_size d"
    "cache_max_size d' = cache_max_size d"
    by (subst d', simp)+
  from Cons.IH [of d' s'] Cons.prems(1) b cfg step show ?case
    by (simp add: run_operations_def)
qed

lemma FileBackedDict_init_success:
  assumes "FileBackedDict_init cc s fn tn ser deser extra max_size batch_size = (Inr (), cc1, s1, d1)"
  shows "d1 = \<lparr>filename = fn, tablename = tn, serializer = ser, deserializer = deser,
               extra_columns = extra, cache_max_size = max_size,
               cache_eviction_batch_size = batch_size, conn = conn d1, active_object_cache = []\<rparr>"
    and "0 < batch_size" and "table_of s1 d1 = Some []"
  using assms
  by (auto simp: FileBackedDict_init_def post_init_def create_table_def table_of_def Let_def
      split: if_splits prod.splits sum.splits option.splits)

text \<open>
  C10. A collection constructed with a cache size that is not negative (the
  batch size is positive, or the constructor fails) never holds more than
  \<^verbatim>\<open>cache_max_size\<close> entries in its cache after any calls; an insertion that
  takes the cache above the bound evicts \<^verbatim>\<open>min(len(cache), batch size)\<close>
  entries at once, which restores the bound.
\<close>

theorem cache_size_bounded:
  assumes "FileBackedDict_init cc s fn tn ser deser extra max_size batch_size = (Inr (), cc1, s1, d1)"
    and "0 \<le> max_size"
    and "run_operations (s1, d1) ops = (s2, d2)"
  shows "int (length (active_object_cache d2)) \<le> max_size
         \<and> (\<forall>k v. int (length (od_setitem k v (active_object_cache d2))) > max_size \<longrightarrow>
               active_object_cache (snd (snd (add_to_cache s2 d2 k v)))
                 = drop (nat (min (int (length (od_setitem k v (active_object_cache d2)))) batch_size))
                        (od_setitem k v (active_object_cache d2))
               \<and> int (length (active_object_cache (snd (snd (add_to_cache s2 d2 k v))))) \<le> max_size)"
proof -
  note init = FileBackedDict_init_success [OF assms(1)]
  have d1: "1 \<le> cache_eviction_batch_size d1" "int (length (active_object_cache d1)) \<le> cache_max_size d1"
    "cache_max_size d1 = max_size" "cache_eviction_batch_size d1 = batch_size"
    using init(2) assms(2) by (subst init(1), simp)+
  from run_operations_bounded [OF d1(1,2), of s1 ops] run_operations_frame [of s1 d1 ops] assms(3)
  have c: "d2 = d1\<lparr>active_object_cache := active_object_cache d2\<rparr>"
    "int (length (active_object_cache d2)) \<le> cache_max_size d1"
    by auto
  have cfg: "cache_max_size d2 = cache_max_size d1"
    "cache_eviction_batch_size d2 = cache_eviction_batch_size d1"
    by (subst c(1), simp)+
  have d2: "1 \<le> cache_eviction_batch_size d2" "int (length (active_object_cache d2)) \<le> cache_max_size d2"
    "cache_max_size d2 = max_size" "cache_eviction_batch_size d2 = batch_size"
    using c(2) d1 cfg by simp_all
  have "active_object_cache (snd (snd (add_to_cache s2 d2 k v)))
          = drop (nat (min (int (length (od_setitem k v (active_object_cache d2)))) batch_size))
                 (od_setitem k v (active_object_cache d2))
        \<and> int (length (active_object_cache (snd (snd (add_to_cache s2 d2 k v))))) \<le> max_size"
    if "int (length (od_setitem k v (active_object_cache d2))) > max_size" for k v
  proof -
    have n: "eviction_count d2 (od_setitem k v (active_object_cache d2))
               = nat (min (int (length (od_setitem k v (active_object_cache d2)))) batch_size)"
      using that d2(3,4) by (simp add: eviction_count_def)
    have c: "active_object_cache (snd (snd (add_to_cache s2 d2 k v)))
               = drop (eviction_count d2 (od_setitem k v (active_object_cache d2)))
                      (od_setitem k v (active_object_cache d2))"
      by (simp add: add_to_cache_dict)
    from eviction_restores_bound [OF d2(1,2), of k v] show ?thesis
      unfolding c n d2(3) by (rule conjI [OF refl])
  qed
  with d2(2,3) show ?thesis by blast
qed

theorem cache_size_bounded_witness:
  "(let ops = [Set ''a'' 1, Set ''b'' 2, Get ''a'', Delete ''x'', Length];
        sd2 = run_operations (snd (snd small_dict)) ops
    in fst small_dict = Inr () \<and> (0::int) \<le> 2
       \<and> int (length (active_object_cache (snd sd2))) \<le> 2
       \<and> int (length (od_setitem ''c'' 3 (active_object_cache (snd sd2)))) > 2
       \<and> active_object_cache (snd (snd (add_to_cache (fst sd2) (snd sd2) ''c'' 3)))
           = [(''a'', 1), (''c'', 3)])"
proof -
  let ?ops = "[Set ''a'' 1, Set ''b'' 2, Get ''a'', Delete ''x'', Length]"
  let ?sd2 = "run_operations (snd (snd small_dict)) ?ops"
  have init:
    "FileBackedDict_init initial_connection_cache (no_files :: nat sqlite3) ''f'' ''t''
       (\<lambda>v. v) (\<lambda>b. b) [] 2 1
     = (Inr (), fst (snd small_dict), fst (snd (snd small_dict)), snd (snd (snd small_dict)))"
    by (simp add: eval_defs)
  have run: "run_operations (fst (snd (snd small_dict)), snd (snd (snd small_dict))) ?ops
               = (fst ?sd2, snd ?sd2)"
    by simp
  have above: "int (length (od_setitem ''c'' 3 (active_object_cache (snd ?sd2)))) > 2"
    by (simp add: eval_defs)
  have ok: "fst small_dict = Inr ()" by (simp add: eval_defs)
  from cache_size_bounded [OF init _ run] above
  have "int (length (active_object_cache (snd ?sd2))) \<le> 2"
    and "active_object_cache (snd (snd (add_to_cache (fst ?sd2) (snd ?sd2) ''c'' 3)))
           = drop (nat (min (int (length (od_setitem ''c'' 3 (active_object_cache (snd ?sd2))))) 1))
                  (od_setitem ''c'' 3 (active_object_cache (snd ?sd2)))"
    by simp_all
  moreover have "drop (nat (min (int (length (od_setitem ''c'' 3 (active_object_cache (snd ?sd2))))) 1))
                  (od_setitem ''c'' 3 (active_object_cache (snd ?sd2))) = [(''a'', 1), (''c'', 3)]"
    by (simp add: eval_defs)
  ultimately show ?thesis using above ok by (simp add: Let_def)
qed

section \<open>The statements on the rows\<close>

lemma insert_or_replace_keys: "fst ` set (insert_or_replace r rows) = insert (fst r) (fst ` set rows)"
  by (auto simp: insert_or_replace_def image_iff)

lemma executemany_keys:
  "fst ` set (snd (executemany_insert_or_replace items rows)) = fst ` set rows \<union> fst ` set items"
  unfolding executemany_insert_or_replace_def snd_conv
proof (induction items arbitrary: rows)
  case Nil
  show ?case by simp
next
  case (Cons x items)
  show ?case by (auto simp: Cons.IH insert_or_replace_keys)
qed

lemma executemany_rows:
  "set (snd (executemany_insert_or_replace items rows))
     \<subseteq> {r \<in> set rows. fst r \<notin> fst ` set items} \<union> set items"
  unfolding executemany_insert_or_replace_def snd_conv
proof (induction items arbitrary: rows)
  case Nil
  show ?case by simp
next
  case (Cons x items)
  have "set (foldl (\<lambda>rs r. insert_or_replace r rs) (insert_or_replace x rows) items)
          \<subseteq> {r \<in> set (insert_or_replace x rows). fst r \<notin> fst ` set items} \<union> set items"
    by (rule Cons.IH)
  also have "\<dots> \<subseteq> {r \<in> set rows. fst r \<notin> fst ` set (x # items)} \<union> set (x # items)"
    by (auto simp: insert_or_replace_def)
  finally show ?case by simp
qed

lemma executemany_other_key:
  "k \<notin> fst ` set items \<Longrightarrow>
   filter (\<lambda>r. fst r = k) (snd (executemany_insert_or_replace items rows))
     = filter (\<lambda>r. fst r = k) rows"
  unfolding executemany_insert_or_replace_def snd_conv
proof (induction items arbitrary: rows)
  case Nil
  show ?case by simp
next
  case (Cons x items)
  then have "filter (\<lambda>r. fst r = k) (insert_or_replace x rows) = filter (\<lambda>r. fst r = k) rows"
    by (auto simp: insert_or_replace_def intro: filter_cong)
  with Cons show ?case by simp
qed

lemma executemany_distinct:
  "distinct (map fst rows) \<Longrightarrow>
   distinct (map fst (snd (executemany_insert_or_replace items rows)))"
  unfolding executemany_insert_or_replace_def snd_conv
proof (induction items arbitrary: rows)
  case Nil
  then show ?case by simp
next
  case (Cons x items)
  from Cons.prems have "distinct (map fst (insert_or_replace x rows))"
    by (auto simp: insert_or_replace_def distinct_map_filter)
  from Cons.IH [OF this] show ?case by simp
qed

lemma select_value_None: "(fst (select_value k rows) = None) = (k \<notin> fst ` set rows)"
  by (auto simp: select_value_def find_None_iff image_iff)

lemma select_value_Some:
  assumes "k \<in> fst ` set rows" and "\<forall>r \<in> set rows. fst r = k \<longrightarrow> fst (snd r) = b"
  shows "fst (select_value k rows) = Some b"
proof -
  from assms(1) obtain r where "find (\<lambda>r. fst r = k) rows = Some r"
    by (cases "find (\<lambda>r. fst r = k) rows") (auto simp: find_None_iff)
  moreover from this have "r \<in> set rows" "fst r = k"
    by (auto simp: find_Some_iff)
  ultimately show ?thesis using assms(2) by (simp add: select_value_def)
qed

lemma select_value_rows [simp]: "snd (select_value k rows) = rows"
  by (simp add: select_value_def)

lemma delete_count_zero: "(fst (delete_where_key k rows) = 0) = (k \<notin> fst ` set rows)"
  by (auto simp: delete_where_key_def filter_empty_conv image_iff)

lemma delete_keys: "fst ` set (snd (delete_where_key k rows)) = fst ` set rows - {k}"
  by (auto simp: delete_where_key_def image_iff)

lemma store_keys_open: "table_of s d = Some rows \<Longrightarrow> store_keys s d = map fst rows"
  by (simp add: store_keys_def)

lemma add_to_cache_open:
  assumes "table_of s d = Some rows"
  shows "add_to_cache s d k v =
     (Inr (),
      with_table s d
        (snd (executemany_insert_or_replace
                (map (row_of d)
                   (take (eviction_count d (od_setitem k v (active_object_cache d)))
                         (od_setitem k v (active_object_cache d)))) rows)),
      d\<lparr>active_object_cache :=
          drop (eviction_count d (od_setitem k v (active_object_cache d)))
               (od_setitem k v (active_object_cache d))\<rparr>)"
proof -
  let ?c = "od_setitem k v (active_object_cache d)"
  let ?d1 = "d\<lparr>active_object_cache := ?c\<rparr>"
  have open1: "table_of s ?d1 = Some rows" using assms by simp
  show ?thesis
  proof (cases "int (length ?c) > cache_max_size d")
    case True
    have "nat (min (int (length ?c)) (cache_eviction_batch_size d))
            \<le> length (active_object_cache ?d1)"
      by simp
    from prune_cache_open [OF open1 this] True show ?thesis
      by (simp add: add_to_cache_def eviction_count_def Let_def)
  next
    case False
    with with_table_same [OF assms] show ?thesis
      by (simp add: add_to_cache_def eviction_count_def Let_def executemany_insert_or_replace_def)
  qed
qed

lemma flush_open:
  assumes "table_of s d = Some rows"
  shows "flush s d =
     (Inr (),
      with_table s d
        (snd (executemany_insert_or_replace (map (row_of d) (active_object_cache d)) rows)),
      d\<lparr>active_object_cache := []\<rparr>)"
  using prune_cache_open [OF assms, of "int (length (active_object_cache d))"]
  by (simp add: flush_def)

lemma map_of_move_to_end: "map_of (od_move_to_end k c) k = map_of c k"
proof -
  have "map_of (filter (\<lambda>e. fst e \<noteq> k) c) k = None"
    by (induction c) auto
  moreover have "map_of (filter (\<lambda>e. fst e = k) c) k = map_of c k"
    by (induction c) auto
  ultimately show ?thesis by (simp add: od_move_to_end_def map_add_def)
qed

lemma od_delitem_absent: "\<not> od_contains k c \<Longrightarrow> od_delitem k c = c"
  by (induction c) (auto simp: od_contains_def od_delitem_def)

lemma od_contains_map_of: "od_contains k c = (map_of c k \<noteq> None)"
  by (simp add: od_contains_def map_of_eq_None_iff)

lemma getitem_open_cached:
  assumes "od_contains k (active_object_cache d)"
  shows "\<exists>v. map_of (active_object_cache d) k = Some v \<and>
     getitem s d k =
       (Inr v, s, d\<lparr>active_object_cache := od_move_to_end k (active_object_cache d)\<rparr>)"
  using assms
  by (auto simp: getitem_def Let_def map_of_move_to_end od_contains_map_of)

lemma getitem_open_absent:
  assumes "table_of s d = Some rows" and "\<not> od_contains k (active_object_cache d)"
    and "k \<notin> fst ` set rows"
  shows "getitem s d k = (Inl (KeyError k), s, d)"
  using assms select_value_None [of k rows] with_table_same [OF assms(1)]
  by (simp add: getitem_def execute_open [OF assms(1)])

lemma getitem_open_stored:
  assumes "table_of s d = Some rows" and "\<not> od_contains k (active_object_cache d)"
    and "fst (select_value k rows) = Some b"
  shows "getitem s d k =
     (Inr (deserializer d b),
      snd (add_to_cache s d k (deserializer d b)))"
  using assms with_table_same [OF assms(1)] add_to_cache_open [OF assms(1), of k "deserializer d b"]
  by (simp add: getitem_def execute_open [OF assms(1)] Let_def)

lemma delitem_open:
  assumes "table_of s d = Some rows"
  shows "delitem s d k =
     (if \<not> od_contains k (active_object_cache d) \<and> k \<notin> fst ` set rows
      then Inl (KeyError k) else Inr (),
      with_table s d (snd (delete_where_key k rows)),
      d\<lparr>active_object_cache := od_delitem k (active_object_cache d)\<rparr>)"
  using delete_count_zero [of k rows] od_delitem_absent [of k "active_object_cache d"]
  by (auto simp: delitem_def Let_def
      execute_open [where d = "d\<lparr>active_object_cache := c\<rparr>" for c, simplified, OF assms]
      execute_open [OF assms])

lemma iter_open:
  assumes "table_of s d = Some rows"
  shows "iter s d =
     (Inr (filter (\<lambda>k. \<not> od_contains k (active_object_cache d)) (map fst rows)
           @ map fst (active_object_cache d)), s)"
  using with_table_same [OF assms]
  by (simp add: iter_def execute_open [OF assms] select_keys_def)

lemma len_open:
  assumes "table_of s d = Some rows"
  shows "len s d =
     (if variable_limit s < length (active_object_cache d) then Inl OperationalError
      else Inr (int (length (filter (\<lambda>r. fst r \<notin> set (map fst (active_object_cache d))) rows))
                + int (length (active_object_cache d))),
      s)"
  using with_table_same [OF assms]
  by (simp add: len_def execute_open [OF assms] count_not_in_def)

section \<open>Lookup and deletion\<close>

lemma od_contains_cache_keys: "od_contains k (active_object_cache d) = (k \<in> set (cache_keys d))"
  by (simp add: od_contains_def cache_keys_def)

lemma getitem_result:
  assumes "table_of s d = Some rows"
  shows "(isl (fst (getitem s d k)) \<longleftrightarrow> k \<notin> set (cache_keys d) \<and> k \<notin> set (store_keys s d))"
    and "isl (fst (getitem s d k)) \<longrightarrow> getitem s d k = (Inl (KeyError k), s, d)"
    and "\<forall>v. fst (getitem s d k) = Inr v \<longrightarrow>
           map_of (active_object_cache d) k = Some v
           \<or> (k \<notin> set (cache_keys d)
               \<and> (\<exists>b. fst (select_value k rows) = Some b \<and> v = deserializer d b))"
proof -
  consider (cached) "od_contains k (active_object_cache d)"
    | (absent) "\<not> od_contains k (active_object_cache d)" "k \<notin> fst ` set rows"
    | (stored) b where "\<not> od_contains k (active_object_cache d)" "fst (select_value k rows) = Some b"
    using select_value_None [of k rows] by (cases "fst (select_value k rows)") auto
  then have "(isl (fst (getitem s d k)) \<longleftrightarrow> k \<notin> set (cache_keys d) \<and> k \<notin> set (store_keys s d))
    \<and> (isl (fst (getitem s d k)) \<longrightarrow> getitem s d k = (Inl (KeyError k), s, d))
    \<and> (\<forall>v. fst (getitem s d k) = Inr v \<longrightarrow>
           map_of (active_object_cache d) k = Some v
           \<or> (k \<notin> set (cache_keys d)
               \<and> (\<exists>b. fst (select_value k rows) = Some b \<and> v = deserializer d b)))"
  proof cases
    case cached
    with getitem_open_cached [OF cached, of s] show ?thesis
      by (auto simp: od_contains_cache_keys)
  next
    case absent
    with getitem_open_absent [OF assms absent] show ?thesis
      by (simp add: od_contains_cache_keys store_keys_open [OF assms])
  next
    case stored
    with getitem_open_stored [OF assms stored] select_value_None [of k rows] show ?thesis
      by (auto simp: od_contains_cache_keys store_keys_open [OF assms])
  qed
  then show "(isl (fst (getitem s d k)) \<longleftrightarrow> k \<notin> set (cache_keys d) \<and> k \<notin> set (store_keys s d))"
    and "isl (fst (getitem s d k)) \<longrightarrow> getitem s d k = (Inl (KeyError k), s, d)"
    and "\<forall>v. fst (getitem s d k) = Inr v \<longrightarrow>
           map_of (active_object_cache d) k = Some v
           \<or> (k \<notin> set (cache_keys d)
               \<and> (\<exists>b. fst (select_value k rows) = Some b \<and> v = deserializer d b))"
    by blast+
qed

lemma delitem_result:
  assumes "table_of s d = Some rows"
  shows "(isl (fst (delitem s d k)) \<longleftrightarrow> k \<notin> set (cache_keys d) \<and> k \<notin> set (store_keys s d))"
    and "isl (fst (delitem s d k)) \<longrightarrow> delitem s d k = (Inl (KeyError k), s, d)"
    and "k \<notin> set (cache_keys (snd (snd (delitem s d k))))"
    and "k \<notin> set (store_keys (fst (snd (delitem s d k))) (snd (snd (delitem s d k))))"
proof -
  note del = delitem_open [OF assms, of k]
  show "(isl (fst (delitem s d k)) \<longleftrightarrow> k \<notin> set (cache_keys d) \<and> k \<notin> set (store_keys s d))"
    by (simp add: del od_contains_cache_keys store_keys_open [OF assms])
  show "isl (fst (delitem s d k)) \<longrightarrow> delitem s d k = (Inl (KeyError k), s, d)"
  proof
    assume "isl (fst (delitem s d k))"
    then have absent: "\<not> od_contains k (active_object_cache d)" "k \<notin> fst ` set rows"
      by (auto simp: del split: if_splits)
    then have "snd (delete_where_key k rows) = rows"
      by (auto simp: delete_where_key_def filter_id_conv)
    with absent od_delitem_absent [OF absent(1)] with_table_same [OF assms] show
      "delitem s d k = (Inl (KeyError k), s, d)"
      by (simp add: del)
  qed
  show "k \<notin> set (cache_keys (snd (snd (delitem s d k))))"
    by (auto simp: del cache_keys_def od_delitem_def)
  have "table_of (fst (snd (delitem s d k))) (snd (snd (delitem s d k)))
          = Some (snd (delete_where_key k rows))"
    by (simp add: del table_of_with_table [OF assms])
  then show "k \<notin> set (store_keys (fst (snd (delitem s d k))) (snd (snd (delitem s d k))))"
    using delete_keys [of k rows] by (simp add: store_keys_def)
qed

text \<open>
  C7. On a usable collection \<^verbatim>\<open>d[k]\<close> and \<^verbatim>\<open>del d[k]\<close> raise exactly when
  \<open>k\<close> is neither in the cache nor in the table, the error is \<^verbatim>\<open>KeyError(k)\<close>
  and nothing has changed; a value returned is the cache's or the deserialized
  stored one, never a default; after \<^verbatim>\<open>del d[k]\<close> the key is in neither place.
\<close>

theorem not_found_iff_absent:
  assumes "table_of s d = Some rows"
  shows "(isl (fst (getitem s d k)) \<longleftrightarrow> k \<notin> set (cache_keys d) \<and> k \<notin> set (store_keys s d))
       \<and> (isl (fst (getitem s d k)) \<longrightarrow> getitem s d k = (Inl (KeyError k), s, d))
       \<and> (\<forall>v. fst (getitem s d k) = Inr v \<longrightarrow>
             map_of (active_object_cache d) k = Some v
             \<or> (k \<notin> set (cache_keys d)
                 \<and> (\<exists>b. fst (select_value k rows) = Some b \<and> v = deserializer d b)))
       \<and> (isl (fst (delitem s d k)) \<longleftrightarrow> k \<notin> set (cache_keys d) \<and> k \<notin> set (store_keys s d))
       \<and> (isl (fst (delitem s d k)) \<longrightarrow> delitem s d k = (Inl (KeyError k), s, d))
       \<and> k \<notin> set (cache_keys (snd (snd (delitem s d k))))
       \<and> k \<notin> set (store_keys (fst (snd (delitem s d k))) (snd (snd (delitem s d k))))"
  using getitem_result [OF assms, of k] delitem_result [OF assms, of k] by blast

text \<open>
  An instance: \<open>a\<close> is only in the table, \<open>b\<close> only in the cache, \<open>c\<close> nowhere.
\<close>

theorem not_found_iff_absent_witness:
  "(let sd = run_operations (snd (snd small_dict)) [Set ''a'' 1, Flush, Set ''b'' 2]
    in table_of (fst sd) (snd sd) = Some [(''a'', 1, [])]
       \<and> cache_keys (snd sd) = [''b'']
       \<and> isl (fst (getitem (fst sd) (snd sd) ''c''))
       \<and> isl (fst (delitem (fst sd) (snd sd) ''c''))
       \<and> \<not> isl (fst (getitem (fst sd) (snd sd) ''a''))
       \<and> \<not> isl (fst (delitem (fst sd) (snd sd) ''a''))
       \<and> \<not> isl (fst (getitem (fst sd) (snd sd) ''b''))
       \<and> \<not> isl (fst (delitem (fst sd) (snd sd) ''b'')))"
proof -
  let ?sd = "run_operations (snd (snd small_dict)) [Set ''a'' 1, Flush, Set ''b'' 2]"
  have usable: "table_of (fst ?sd) (snd ?sd) = Some [(''a'', 1, [])]"
    by (simp add: eval_defs table_of_def)
  have cached: "cache_keys (snd ?sd) = [''b'']"
    by (simp add: eval_defs cache_keys_def)
  have stored: "store_keys (fst ?sd) (snd ?sd) = [''a'']"
    using store_keys_open [OF usable] by simp
  from not_found_iff_absent [OF usable, of "''a''"] not_found_iff_absent [OF usable, of "''b''"]
    not_found_iff_absent [OF usable, of "''c''"] usable
  show ?thesis unfolding Let_def cached stored by simp
qed

section \<open>A value that is evicted comes back from the table\<close>

lemma od_setitem_keys: "fst ` set (od_setitem k v c) = insert k (fst ` set c)"
proof (cases "od_contains k c")
  case True
  have "map fst (map (\<lambda>e. if fst e = k then (k, v) else e) c) = map fst c"
    by (induction c) auto
  then have "fst ` set (map (\<lambda>e. if fst e = k then (k, v) else e) c) = fst ` set c"
    by (metis list.set_map)
  moreover have "k \<in> fst ` set c" using True by (simp add: od_contains_def)
  ultimately show ?thesis
    unfolding od_setitem_def using True by (simp only: if_True insert_absorb)
next
  case False
  then show ?thesis by (simp add: od_setitem_def)
qed

text \<open>Evicting a prefix of the cache keeps the value of \<open>k\<close>.\<close>

lemma value_kept_evict:
  assumes "table_of s d = Some rows"
    and "key_holds k v c"
    and "od_contains k c \<or> k \<in> fst ` set rows"
    and "\<not> od_contains k c \<longrightarrow> (\<forall>r \<in> set rows. fst r = k \<longrightarrow> fst (snd r) = serializer d v)"
  shows "value_kept k v
           (with_table s d (snd (executemany_insert_or_replace (map (row_of d) (take n c)) rows)))
           (d\<lparr>active_object_cache := drop n c\<rparr>)"
proof -
  let ?items = "map (row_of d) (take n c)"
  let ?rows' = "snd (executemany_insert_or_replace ?items rows)"
  have keys_items: "fst ` set ?items = fst ` set (take n c)"
    by (simp add: image_image row_of_def)
  have split: "fst ` set c = fst ` set (take n c) \<union> fst ` set (drop n c)"
    by (metis append_take_drop_id image_Un set_append)
  have kh_drop: "key_holds k v (drop n c)" using assms(2) by (rule key_holds_drop)
  have present: "od_contains k (drop n c) \<or> k \<in> fst ` set ?rows'"
  proof -
    have "fst ` set ?rows' = fst ` set rows \<union> fst ` set (take n c)"
      by (simp only: executemany_keys keys_items)
    with assms(3) split show ?thesis
      unfolding od_contains_def set_map by blast
  qed
  have stored: "\<forall>r \<in> set ?rows'. fst r = k \<longrightarrow> fst (snd r) = serializer d v"
    if gone: "\<not> od_contains k (drop n c)"
  proof (cases "k \<in> fst ` set (take n c)")
    case True
    have items_v: "\<forall>r \<in> set ?items. fst r = k \<longrightarrow> fst (snd r) = serializer d v"
      using assms(2) by (auto simp: key_holds_def row_of_def dest: in_set_takeD)
    show ?thesis
    proof (intro ballI impI)
      fix r assume r: "r \<in> set ?rows'" "fst r = k"
      with executemany_rows [of ?items rows] True keys_items have "r \<in> set ?items" by auto
      with items_v r(2) show "fst (snd r) = serializer d v" by blast
    qed
  next
    case False
    with gone split have "\<not> od_contains k c" by (auto simp: od_contains_def)
    with assms(4) have old: "\<forall>r \<in> set rows. fst r = k \<longrightarrow> fst (snd r) = serializer d v" by blast
    from False keys_items have "k \<notin> fst ` set ?items" by simp
    from executemany_other_key [OF this, of rows]
    have "set (filter (\<lambda>r. fst r = k) ?rows') = set (filter (\<lambda>r. fst r = k) rows)" by simp
    with old show ?thesis by auto
  qed
  show ?thesis
    using kh_drop present stored
    by (simp add: value_kept_def table_of_with_table [OF assms(1)])
qed

lemma value_kept_setitem:
  assumes "table_of s d = Some rows"
  shows "value_kept k v (fst (snd (setitem s d k v))) (snd (snd (setitem s d k v)))"
proof -
  have "od_contains k (od_setitem k v (active_object_cache d))"
    by (simp add: od_contains_def od_setitem_keys)
  with value_kept_evict [OF assms key_holds_setitem_same [of k v "active_object_cache d"]]
  show ?thesis by (simp add: setitem_def add_to_cache_open [OF assms])
qed

lemma od_contains_setitem_other:
  "k' \<noteq> k \<Longrightarrow> od_contains k (od_setitem k' v' c) = od_contains k c"
  by (simp add: od_contains_def od_setitem_keys)

lemma od_contains_delitem_other:
  "k' \<noteq> k \<Longrightarrow> od_contains k (od_delitem k' c) = od_contains k c"
  by (fastforce simp: od_contains_def od_delitem_def)

lemma value_kept_add_other:
  assumes "value_kept k v s d" and "k' \<noteq> k"
  shows "value_kept k v (fst (snd (add_to_cache s d k' v'))) (snd (snd (add_to_cache s d k' v')))"
proof -
  from assms(1) obtain rows where rows: "table_of s d = Some rows"
    by (auto simp: value_kept_def split: option.splits)
  from assms rows show ?thesis
    by (simp add: add_to_cache_open [OF rows])
       (rule value_kept_evict [OF rows],
        auto simp: value_kept_def key_holds_setitem_other od_contains_setitem_other)
qed

lemma apply_operation_value_kept:
  assumes "value_kept k v s d" and "operation_key op \<noteq> Some k"
  shows "value_kept k v (fst (apply_operation (s, d) op)) (snd (apply_operation (s, d) op))"
proof -
  from assms(1) obtain rows where rows: "table_of s d = Some rows"
    by (auto simp: value_kept_def split: option.splits)
  show ?thesis
  proof (cases op)
    case (Get k')
    then have ne: "k' \<noteq> k" using assms(2) by auto
    consider (cached) "od_contains k' (active_object_cache d)"
      | (absent) "\<not> od_contains k' (active_object_cache d)" "k' \<notin> fst ` set rows"
      | (stored) b where "\<not> od_contains k' (active_object_cache d)" "fst (select_value k' rows) = Some b"
      using select_value_None [of k' rows] by (cases "fst (select_value k' rows)") auto
    then show ?thesis
    proof cases
      case cached
      from getitem_open_cached [OF cached, of s] assms(1) rows show ?thesis
        by (fastforce simp: Get value_kept_def key_holds_move_to_end)
    next
      case absent
      with getitem_open_absent [OF rows absent] assms(1) show ?thesis by (simp add: Get)
    next
      case stored
      with getitem_open_stored [OF rows stored] value_kept_add_other [OF assms(1) ne]
      show ?thesis by (simp add: Get)
    qed
  next
    case (Set k' v')
    with assms(2) value_kept_add_other [OF assms(1), of k' v'] show ?thesis
      by (simp add: setitem_def)
  next
    case (Delete k')
    then have ne: "k' \<noteq> k" using assms(2) by auto
    have keep: "{r \<in> set (snd (delete_where_key k' rows)). fst r = k} = {r \<in> set rows. fst r = k}"
      using ne by (auto simp: delete_where_key_def)
    then have mem: "k \<in> fst ` set (snd (delete_where_key k' rows)) \<longleftrightarrow> k \<in> fst ` set rows"
      by (auto simp: image_iff)
    from assms(1) rows keep mem show ?thesis
      by (auto simp: Delete delitem_open [OF rows] value_kept_def table_of_with_table [OF rows]
          key_holds_delitem od_contains_delitem_other [OF ne])
  next
    case Flush
    from assms(1) rows
    have "value_kept k v
            (with_table s d (snd (executemany_insert_or_replace
               (map (row_of d) (take (length (active_object_cache d)) (active_object_cache d))) rows)))
            (d\<lparr>active_object_cache := drop (length (active_object_cache d)) (active_object_cache d)\<rparr>)"
      by (intro value_kept_evict [OF rows]) (auto simp: value_kept_def)
    then show ?thesis by (simp add: Flush flush_open [OF rows])
  next
    case Iterate
    with assms(1) rows show ?thesis by (simp add: iter_open [OF rows])
  next
    case Length
    with assms(1) rows show ?thesis by (simp add: len_open [OF rows])
  qed
qed

lemma run_operations_value_kept:
  assumes "value_kept k v (fst sd) (snd sd)" and "\<forall>op \<in> set ops. operation_key op \<noteq> Some k"
  shows "value_kept k v (fst (run_operations sd ops)) (snd (run_operations sd ops))"
  using assms
proof (induction ops arbitrary: sd)
  case Nil
  then show ?case by (simp add: run_operations_def)
next
  case (Cons op ops)
  obtain s d where sd: "sd = (s, d)" by (cases sd)
  from Cons.prems have "value_kept k v (fst (apply_operation (s, d) op)) (snd (apply_operation (s, d) op))"
    by (intro apply_operation_value_kept) (simp_all add: sd)
  with Cons.IH [of "apply_operation sd op"] Cons.prems(2) sd show ?case
    by (simp add: run_operations_def)
qed

lemma run_operations_serializer:
  "serializer (snd (run_operations (s, d) ops)) = serializer d"
  "deserializer (snd (run_operations (s, d) ops)) = deserializer d"
  by (subst run_operations_frame, simp)+

text \<open>
  In the model, where the library accepts every row it is given: when the
  deserializer gives \<open>v\<close> back from the serialized \<open>v\<close>, after \<^verbatim>\<open>d[k] = v\<close> on a
  usable collection and any further calls on other keys, a key \<open>k\<close> that has
  left the cache still reads as \<open>v\<close>, and the table holds the serialized \<open>v\<close>
  for it. The code itself loses the entry when the library refuses the row,
  since the entries are popped before the write and not put back.
\<close>

lemma evicted_value_read_back:
  assumes "deserializer d (serializer d v) = v"
    and "table_of s d = Some rows"
    and "setitem s d k v = (r, s1, d1)"
    and "\<forall>op \<in> set ops. operation_key op \<noteq> Some k"
    and "run_operations (s1, d1) ops = (s2, d2)"
    and "\<not> od_contains k (active_object_cache d2)"
  shows "fst (getitem s2 d2 k) = Inr v
         \<and> (\<exists>rows2. table_of s2 d2 = Some rows2
                     \<and> fst (select_value k rows2) = Some (serializer d v))"
proof -
  have d1: "d1 = snd (snd (add_to_cache s d k v))" and s1: "s1 = fst (snd (setitem s d k v))"
    using assms(3) by (simp_all add: setitem_def)
  have cfg1: "serializer d1 = serializer d" "deserializer d1 = deserializer d"
    by (simp_all add: d1 add_to_cache_dict)
  from value_kept_setitem [OF assms(2), of k v] assms(3)
  have "value_kept k v s1 d1" by simp
  with run_operations_value_kept [of k v "(s1, d1)" ops] assms(4,5)
  have kept: "value_kept k v s2 d2" by simp
  have cfg2: "serializer d2 = serializer d" "deserializer d2 = deserializer d"
    using run_operations_serializer [of s1 d1 ops] assms(5) cfg1 by simp_all
  from kept obtain rows2 where rows2: "table_of s2 d2 = Some rows2"
    by (auto simp: value_kept_def split: option.splits)
  from kept rows2 assms(6) have "k \<in> fst ` set rows2"
    and "\<forall>r \<in> set rows2. fst r = k \<longrightarrow> fst (snd r) = serializer d v"
    by (simp_all add: value_kept_def cfg2)
  then have sel: "fst (select_value k rows2) = Some (serializer d v)"
    by (rule select_value_Some)
  from getitem_open_stored [OF rows2 assms(6) sel] assms(1)
  have "fst (getitem s2 d2 k) = Inr v" by (simp add: cfg2)
  with rows2 sel show ?thesis by blast
qed

section \<open>Iteration and length\<close>

lemma od_setitem_distinct:
  "distinct (map fst c) \<Longrightarrow> distinct (map fst (od_setitem k v c))"
proof (cases "od_contains k c")
  case True
  have "map fst (map (\<lambda>e. if fst e = k then (k, v) else e) c) = map fst c"
    by (induction c) auto
  moreover assume "distinct (map fst c)"
  ultimately show ?thesis unfolding od_setitem_def using True by (simp only: if_True)
next
  case False
  moreover assume "distinct (map fst c)"
  ultimately show ?thesis by (simp add: od_setitem_def od_contains_def)
qed

lemma od_move_to_end_distinct:
  "distinct (map fst c) \<Longrightarrow> distinct (map fst (od_move_to_end k c))"
  by (auto simp: od_move_to_end_def distinct_map_filter)

lemma od_move_to_end_keys: "fst ` set (od_move_to_end k c) = fst ` set c"
  by (auto simp: od_move_to_end_def)

lemma od_delitem_distinct:
  "distinct (map fst c) \<Longrightarrow> distinct (map fst (od_delitem k c))"
  by (simp add: od_delitem_def distinct_map_filter)

lemma od_delitem_keys: "fst ` set (od_delitem k c) = fst ` set c - {k}"
  by (auto simp: od_delitem_def)

lemma delete_distinct:
  "distinct (map fst rows) \<Longrightarrow> distinct (map fst (snd (delete_where_key k rows)))"
  by (simp add: delete_where_key_def distinct_map_filter)

lemma live_keys_open:
  "table_of s d = Some rows \<Longrightarrow> live_keys s d = fst ` set (active_object_cache d) \<union> fst ` set rows"
  by (simp add: live_keys_def cache_keys_def store_keys_def)

text \<open>Evicting a prefix of the cache moves keys to the table and loses none.\<close>

lemma evict_consistent:
  assumes "table_of s d = Some rows" and "distinct (map fst rows)" and "distinct (map fst c)"
  shows "consistent
           (with_table s d (snd (executemany_insert_or_replace (map (row_of d) (take n c)) rows)))
           (d\<lparr>active_object_cache := drop n c\<rparr>)"
    and "live_keys
           (with_table s d (snd (executemany_insert_or_replace (map (row_of d) (take n c)) rows)))
           (d\<lparr>active_object_cache := drop n c\<rparr>)
         = fst ` set c \<union> fst ` set rows"
proof -
  let ?rows' = "snd (executemany_insert_or_replace (map (row_of d) (take n c)) rows)"
  let ?s' = "with_table s d ?rows'" and ?d' = "d\<lparr>active_object_cache := drop n c\<rparr>"
  have t: "table_of ?s' ?d' = Some ?rows'"
    using table_of_with_table [OF assms(1)] by simp
  have "distinct (map fst (drop n c))"
    using assms(3) by (simp add: distinct_drop flip: drop_map)
  with executemany_distinct [OF assms(2)] t show "consistent ?s' ?d'"
    by (simp add: consistent_def)
  have keys_items: "fst ` set (map (row_of d) (take n c)) = fst ` set (take n c)"
    by (simp add: image_image row_of_def)
  have split: "fst ` set c = fst ` set (take n c) \<union> fst ` set (drop n c)"
    by (metis append_take_drop_id image_Un set_append)
  have "fst ` set ?rows' = fst ` set rows \<union> fst ` set (take n c)"
    by (simp only: executemany_keys keys_items)
  with split show "live_keys ?s' ?d' = fst ` set c \<union> fst ` set rows"
    unfolding live_keys_open [OF t] by auto
qed

lemma add_to_cache_consistent:
  assumes "consistent s d"
  shows "consistent (fst (snd (add_to_cache s d k v))) (snd (snd (add_to_cache s d k v)))"
    and "live_keys (fst (snd (add_to_cache s d k v))) (snd (snd (add_to_cache s d k v)))
           = insert k (live_keys s d)"
proof -
  from assms obtain rows where rows: "table_of s d = Some rows"
    and dr: "distinct (map fst rows)" and dc: "distinct (map fst (active_object_cache d))"
    by (auto simp: consistent_def split: option.splits)
  note ev = evict_consistent [OF rows dr od_setitem_distinct [OF dc, of k v]]
  show "consistent (fst (snd (add_to_cache s d k v))) (snd (snd (add_to_cache s d k v)))"
    using ev(1) by (simp add: add_to_cache_open [OF rows])
  show "live_keys (fst (snd (add_to_cache s d k v))) (snd (snd (add_to_cache s d k v)))
           = insert k (live_keys s d)"
    using ev(2) by (simp add: add_to_cache_open [OF rows] od_setitem_keys live_keys_open [OF rows])
qed

lemma apply_operation_consistent:
  assumes "consistent s d"
  shows "consistent (fst (apply_operation (s, d) op)) (snd (apply_operation (s, d) op))"
    and "live_keys (fst (apply_operation (s, d) op)) (snd (apply_operation (s, d) op))
           = dict_keys_step (live_keys s d) op"
proof -
  from assms obtain rows where rows: "table_of s d = Some rows"
    and dr: "distinct (map fst rows)" and dc: "distinct (map fst (active_object_cache d))"
    by (auto simp: consistent_def split: option.splits)
  have "consistent (fst (apply_operation (s, d) op)) (snd (apply_operation (s, d) op))
      \<and> live_keys (fst (apply_operation (s, d) op)) (snd (apply_operation (s, d) op))
           = dict_keys_step (live_keys s d) op"
  proof (cases op)
    case (Get k)
    consider (cached) "od_contains k (active_object_cache d)"
      | (absent) "\<not> od_contains k (active_object_cache d)" "k \<notin> fst ` set rows"
      | (stored) b where "\<not> od_contains k (active_object_cache d)" "fst (select_value k rows) = Some b"
      using select_value_None [of k rows] by (cases "fst (select_value k rows)") auto
    then show ?thesis
    proof cases
      case cached
      from getitem_open_cached [OF cached, of s]
      have g: "snd (getitem s d k)
                 = (s, d\<lparr>active_object_cache := od_move_to_end k (active_object_cache d)\<rparr>)"
        by auto
      have t: "table_of s (d\<lparr>active_object_cache := od_move_to_end k (active_object_cache d)\<rparr>)
                 = Some rows"
        using rows by simp
      show ?thesis
        unfolding Get apply_operation.simps g fst_conv snd_conv dict_keys_step.simps
          live_keys_open [OF t] live_keys_open [OF rows]
        using rows dr od_move_to_end_distinct [OF dc, of k]
        by (simp add: consistent_def od_move_to_end_keys)
    next
      case absent
      with getitem_open_absent [OF rows absent] assms show ?thesis by (simp add: Get)
    next
      case stored
      then have "k \<in> fst ` set rows" using select_value_None [of k rows] by auto
      then have "insert k (live_keys s d) = live_keys s d"
        by (auto simp: live_keys_open [OF rows])
      with getitem_open_stored [OF rows stored] add_to_cache_consistent [OF assms, of k "deserializer d b"]
      show ?thesis by (simp add: Get)
    qed
  next
    case (Set k v)
    with add_to_cache_consistent [OF assms, of k v] show ?thesis by (simp add: setitem_def)
  next
    case (Delete k)
    from rows dr dc delete_keys [of k rows] show ?thesis
      by (auto simp: Delete delitem_open [OF rows] consistent_def live_keys_open
          table_of_with_table [OF rows] delete_distinct od_delitem_distinct od_delitem_keys)
  next
    case Flush
    from evict_consistent [OF rows dr dc, of "length (active_object_cache d)"]
    show ?thesis by (simp add: Flush flush_open [OF rows] live_keys_open [OF rows])
  next
    case Iterate
    with assms show ?thesis by (simp add: iter_open [OF rows])
  next
    case Length
    with assms show ?thesis by (simp add: len_open [OF rows])
  qed
  then show "consistent (fst (apply_operation (s, d) op)) (snd (apply_operation (s, d) op))"
    and "live_keys (fst (apply_operation (s, d) op)) (snd (apply_operation (s, d) op))
           = dict_keys_step (live_keys s d) op"
    by simp_all
qed

lemma run_operations_consistent:
  assumes "consistent (fst sd) (snd sd)"
  shows "consistent (fst (run_operations sd ops)) (snd (run_operations sd ops))
       \<and> live_keys (fst (run_operations sd ops)) (snd (run_operations sd ops))
           = foldl dict_keys_step (live_keys (fst sd) (snd sd)) ops"
  using assms
proof (induction ops arbitrary: sd)
  case Nil
  then show ?case by (simp add: run_operations_def)
next
  case (Cons op ops)
  obtain s d where sd: "sd = (s, d)" by (cases sd)
  with Cons.prems have c: "consistent s d" by simp
  from Cons.IH [of "apply_operation sd op"] apply_operation_consistent [OF c, of op] sd
  show ?case by (simp add: run_operations_def)
qed

lemma fresh_consistent:
  assumes "FileBackedDict_init cc s fn tn ser deser extra max_size batch_size = (Inr (), cc1, s1, d1)"
  shows "consistent s1 d1" and "live_keys s1 d1 = {}"
proof -
  note init = FileBackedDict_init_success [OF assms]
  have "active_object_cache d1 = []" by (subst init(1)) simp
  with init(3) show "consistent s1 d1" and "live_keys s1 d1 = {}"
    by (simp_all add: consistent_def live_keys_open)
qed

lemma iter_consistent:
  assumes "consistent s d"
  shows "iter s d =
           (Inr (filter (\<lambda>k. k \<notin> set (cache_keys d)) (store_keys s d) @ cache_keys d), s)"
    and "distinct (filter (\<lambda>k. k \<notin> set (cache_keys d)) (store_keys s d) @ cache_keys d)"
    and "set (filter (\<lambda>k. k \<notin> set (cache_keys d)) (store_keys s d) @ cache_keys d) = live_keys s d"
proof -
  from assms obtain rows where rows: "table_of s d = Some rows"
    and dr: "distinct (map fst rows)" and dc: "distinct (map fst (active_object_cache d))"
    by (auto simp: consistent_def split: option.splits)
  show "iter s d = (Inr (filter (\<lambda>k. k \<notin> set (cache_keys d)) (store_keys s d) @ cache_keys d), s)"
    by (simp add: iter_open [OF rows] store_keys_open [OF rows] cache_keys_def od_contains_def)
  show "distinct (filter (\<lambda>k. k \<notin> set (cache_keys d)) (store_keys s d) @ cache_keys d)"
    using dr dc by (auto simp: store_keys_open [OF rows] cache_keys_def)
  show "set (filter (\<lambda>k. k \<notin> set (cache_keys d)) (store_keys s d) @ cache_keys d) = live_keys s d"
    by (auto simp: live_keys_def)
qed

lemma len_consistent:
  assumes "consistent s d" and "length (active_object_cache d) \<le> variable_limit s"
  shows "len s d = (Inr (int (card (live_keys s d))), s)"
    and "len s d =
           (Inr (int (length (filter (\<lambda>k. k \<notin> set (cache_keys d)) (store_keys s d)))
                 + int (length (cache_keys d))), s)"
proof -
  from assms obtain rows where rows: "table_of s d = Some rows"
    and dr: "distinct (map fst rows)" and dc: "distinct (map fst (active_object_cache d))"
    by (auto simp: consistent_def split: option.splits)
  let ?C = "set (map fst (active_object_cache d))"
  have count: "length (filter (\<lambda>r. fst r \<notin> ?C) rows)
                 = length (filter (\<lambda>k. k \<notin> ?C) (map fst rows))"
    by (simp add: filter_map comp_def)
  show second: "len s d =
           (Inr (int (length (filter (\<lambda>k. k \<notin> set (cache_keys d)) (store_keys s d)))
                 + int (length (cache_keys d))), s)"
    using count assms(2)
    by (simp add: len_open [OF rows] store_keys_open [OF rows] cache_keys_def)
  have "distinct (filter (\<lambda>k. k \<notin> ?C) (map fst rows))"
    using dr by (rule distinct_filter)
  then have "length (filter (\<lambda>k. k \<notin> ?C) (map fst rows))
               = card (set (filter (\<lambda>k. k \<notin> ?C) (map fst rows)))"
    by (rule distinct_card [symmetric])
  also have "set (filter (\<lambda>k. k \<notin> ?C) (map fst rows)) = set (map fst rows) - ?C"
    by (simp only: set_filter set_diff_eq)
  finally have "length (filter (\<lambda>k. k \<notin> ?C) (map fst rows)) = card (set (map fst rows) - ?C)" .
  moreover have "length (active_object_cache d) = card ?C"
    using distinct_card [OF dc] by simp
  moreover have "card (set (map fst rows) - ?C) + card ?C = card (?C \<union> set (map fst rows))"
  proof -
    have "card (?C \<union> (set (map fst rows) - ?C)) = card ?C + card (set (map fst rows) - ?C)"
      by (rule card_Un_disjoint) auto
    moreover have "?C \<union> (set (map fst rows) - ?C) = ?C \<union> set (map fst rows)" by blast
    ultimately show ?thesis by simp
  qed
  ultimately have "length (filter (\<lambda>r. fst r \<notin> ?C) rows) + length (active_object_cache d)
                     = card (live_keys s d)"
    using count by (simp add: live_keys_def cache_keys_def store_keys_open [OF rows])
  then show "len s d = (Inr (int (card (live_keys s d))), s)"
    using assms(2) by (simp add: len_open [OF rows] flip: of_nat_add)
qed

text \<open>
  C4. After any calls on a collection that was constructed successfully,
  iteration yields the table's keys that are not in the cache, then the cache's
  keys; no key comes twice, and the keys are exactly those in the cache or in
  the table, which are the keys assigned and not deleted since.
\<close>

theorem iteration_complete_no_duplicates:
  assumes "FileBackedDict_init cc s fn tn ser deser extra max_size batch_size = (Inr (), cc1, s1, d1)"
    and "run_operations (s1, d1) ops = (s2, d2)"
  shows "\<exists>ks. iter s2 d2 = (Inr ks, s2)
           \<and> ks = filter (\<lambda>k. k \<notin> set (cache_keys d2)) (store_keys s2 d2) @ cache_keys d2
           \<and> distinct ks
           \<and> set ks = set (cache_keys d2) \<union> set (store_keys s2 d2)
           \<and> set ks = dict_keys_after ops"
proof -
  note fresh = fresh_consistent [OF assms(1)]
  from run_operations_consistent [of "(s1, d1)" ops] fresh assms(2)
  have c: "consistent s2 d2" and l: "live_keys s2 d2 = dict_keys_after ops"
    by (simp_all add: dict_keys_after_def)
  from iter_consistent [OF c] l show ?thesis
    by (simp add: live_keys_def)
qed

theorem iteration_complete_no_duplicates_witness:
  "(let ops = [Set ''a'' 1, Set ''b'' 2, Set ''c'' 3, Set ''a'' 9, Delete ''b''];
        sd2 = run_operations (snd (snd small_dict)) ops
    in fst small_dict = Inr ()
       \<and> store_keys (fst sd2) (snd sd2) = [''a'']
       \<and> cache_keys (snd sd2) = [''c'', ''a'']
       \<and> fst (iter (fst sd2) (snd sd2)) = Inr [''c'', ''a''])"
proof -
  let ?ops = "[Set ''a'' 1, Set ''b'' 2, Set ''c'' 3, Set ''a'' 9, Delete ''b'']"
  let ?sd2 = "run_operations (snd (snd small_dict)) ?ops"
  have init:
    "FileBackedDict_init initial_connection_cache (no_files :: nat sqlite3) ''f'' ''t''
       (\<lambda>v. v) (\<lambda>b. b) [] 2 1
     = (Inr (), fst (snd small_dict), fst (snd (snd small_dict)), snd (snd (snd small_dict)))"
    by (simp add: eval_defs)
  have run: "run_operations (fst (snd (snd small_dict)), snd (snd (snd small_dict))) ?ops
               = (fst ?sd2, snd ?sd2)"
    by simp
  have ok: "fst small_dict = Inr ()" by (simp add: eval_defs)
  have stored: "store_keys (fst ?sd2) (snd ?sd2) = [''a'']"
    by (simp add: eval_defs store_keys_def table_of_def)
  have cached: "cache_keys (snd ?sd2) = [''c'', ''a'']"
    by (simp add: eval_defs cache_keys_def)
  from iteration_complete_no_duplicates [OF init run]
  have "fst (iter (fst ?sd2) (snd ?sd2))
          = Inr (filter (\<lambda>k. k \<notin> set (cache_keys (snd ?sd2))) (store_keys (fst ?sd2) (snd ?sd2))
                 @ cache_keys (snd ?sd2))"
    by auto
  then have "fst (iter (fst ?sd2) (snd ?sd2)) = Inr [''c'', ''a'']"
    unfolding stored cached by simp
  with ok stored cached show ?thesis by (simp add: Let_def)
qed

text \<open>
  C5, as the code has it. After any calls on a collection that was constructed
  successfully: when the cache holds no more keys than the library lets a
  statement bind, the length is the number of keys in the cache or in the
  table, each counted once (the rows whose key is not in the cache, plus the
  cache entries); when it holds more, \<^verbatim>\<open>len\<close> raises the library's error. The
  keys in the cache or in the table are the keys assigned and not deleted
  since.
\<close>

theorem length_counts_live_keys:
  assumes "FileBackedDict_init cc s fn tn ser deser extra max_size batch_size = (Inr (), cc1, s1, d1)"
    and "run_operations (s1, d1) ops = (s2, d2)"
  shows "(length (cache_keys d2) \<le> variable_limit s2 \<longrightarrow>
            len s2 d2 = (Inr (int (card (set (cache_keys d2) \<union> set (store_keys s2 d2)))), s2)
            \<and> len s2 d2 =
                (Inr (int (length (filter (\<lambda>k. k \<notin> set (cache_keys d2)) (store_keys s2 d2)))
                      + int (length (cache_keys d2))), s2))
       \<and> (variable_limit s2 < length (cache_keys d2) \<longrightarrow>
            len s2 d2 = (Inl OperationalError, s2))
       \<and> set (cache_keys d2) \<union> set (store_keys s2 d2) = dict_keys_after ops"
proof -
  note fresh = fresh_consistent [OF assms(1)]
  from run_operations_consistent [of "(s1, d1)" ops] fresh assms(2)
  have c: "consistent s2 d2" and l: "live_keys s2 d2 = dict_keys_after ops"
    by (simp_all add: dict_keys_after_def)
  from c obtain rows where rows: "table_of s2 d2 = Some rows"
    by (auto simp: consistent_def split: option.splits)
  have over: "len s2 d2 = (Inl OperationalError, s2)"
    if "variable_limit s2 < length (cache_keys d2)"
    using that by (simp add: len_open [OF rows] cache_keys_def)
  have within: "len s2 d2 = (Inr (int (card (set (cache_keys d2) \<union> set (store_keys s2 d2)))), s2)
            \<and> len s2 d2 =
                (Inr (int (length (filter (\<lambda>k. k \<notin> set (cache_keys d2)) (store_keys s2 d2)))
                      + int (length (cache_keys d2))), s2)"
    if "length (cache_keys d2) \<le> variable_limit s2"
  proof -
    from that have "length (active_object_cache d2) \<le> variable_limit s2"
      by (simp add: cache_keys_def)
    from len_consistent [OF c this] show ?thesis by (simp add: live_keys_def)
  qed
  from l have "set (cache_keys d2) \<union> set (store_keys s2 d2) = dict_keys_after ops"
    by (simp add: live_keys_def)
  with within over show ?thesis by blast
qed

theorem length_counts_live_keys_witness:
  "(let ops = [Set ''a'' 10, Set ''b'' 20, Set ''c'' 30, Set ''a'' 90, Delete ''b''];
        sd2 = run_operations (snd (snd small_dict)) ops
    in fst small_dict = Inr ()
       \<and> store_keys (fst sd2) (snd sd2) = [''a'']
       \<and> cache_keys (snd sd2) = [''c'', ''a'']
       \<and> length (cache_keys (snd sd2)) \<le> variable_limit (fst sd2)
       \<and> fst (len (fst sd2) (snd sd2)) = Inr 2)"
proof -
  let ?ops = "[Set ''a'' 10, Set ''b'' 20, Set ''c'' 30, Set ''a'' 90, Delete ''b'']"
  let ?sd2 = "run_operations (snd (snd small_dict)) ?ops"
  have init:
    "FileBackedDict_init initial_connection_cache (no_files :: nat sqlite3) ''f'' ''t''
       (\<lambda>v. v) (\<lambda>b. b) [] 2 1
     = (Inr (), fst (snd small_dict), fst (snd (snd small_dict)), snd (snd (snd small_dict)))"
    by (simp add: eval_defs)
  have run: "run_operations (fst (snd (snd small_dict)), snd (snd (snd small_dict))) ?ops
               = (fst ?sd2, snd ?sd2)"
    by simp
  have ok: "fst small_dict = Inr ()" by (simp add: eval_defs)
  have stored: "store_keys (fst ?sd2) (snd ?sd2) = [''a'']"
    by (simp add: eval_defs store_keys_def table_of_def)
  have cached: "cache_keys (snd ?sd2) = [''c'', ''a'']"
    by (simp add: eval_defs cache_keys_def)
  have limit: "variable_limit (fst ?sd2) = 999" by (simp add: eval_defs)
  have within: "length (cache_keys (snd ?sd2)) \<le> variable_limit (fst ?sd2)"
    by (simp add: cached limit)
  from length_counts_live_keys [OF init run, THEN conjunct1] within
  have "len (fst ?sd2) (snd ?sd2)
          = (Inr (int (length (filter (\<lambda>k. k \<notin> set (cache_keys (snd ?sd2)))
                                 (store_keys (fst ?sd2) (snd ?sd2))))
                  + int (length (cache_keys (snd ?sd2)))), fst ?sd2)"
    by blast
  then have "fst (len (fst ?sd2) (snd ?sd2)) = Inr 2"
    unfolding stored cached by simp
  with ok stored cached within show ?thesis by (simp add: Let_def)
qed

text \<open>
  The claim as it is written fails: with a library that binds one parameter
  at most and two keys in the cache, \<^verbatim>\<open>len\<close> raises instead of giving 2.
\<close>

theorem length_fails_above_variable_limit:
  "card (set (cache_keys (snd (run_operations (snd (snd narrow_dict)) [Set ''a'' 10, Set ''b'' 20])))
         \<union> set (store_keys
                  (fst (run_operations (snd (snd narrow_dict)) [Set ''a'' 10, Set ''b'' 20]))
                  (snd (run_operations (snd (snd narrow_dict)) [Set ''a'' 10, Set ''b'' 20])))) = 2
   \<and> fst (len (fst (run_operations (snd (snd narrow_dict)) [Set ''a'' 10, Set ''b'' 20]))
               (snd (run_operations (snd (snd narrow_dict)) [Set ''a'' 10, Set ''b'' 20])))
       = Inl OperationalError"
  by (simp add: narrow_dict_def eval_defs cache_keys_def store_keys_def table_of_def)

section \<open>The list: appending and index bounds\<close>

















section \<open>The order of the cache\<close>

lemma most_recent_move_to_end:
  assumes "od_contains k c"
  shows "most_recent k (od_move_to_end k c)"
proof -
  from assms have ne: "filter (\<lambda>e. fst e = k) c \<noteq> []"
    by (auto simp: od_contains_def filter_empty_conv)
  then have "last (filter (\<lambda>e. fst e = k) c) \<in> set (filter (\<lambda>e. fst e = k) c)"
    by (rule last_in_set)
  then have "fst (last (filter (\<lambda>e. fst e = k) c)) = k" by simp
  with ne show ?thesis by (simp add: most_recent_def od_move_to_end_def)
qed

lemma most_recent_new_key:
  "drop n (c @ [(k, v)]) = [] \<or> most_recent k (drop n (c @ [(k, v)]))"
proof (cases "n < length (c @ [(k, v)])")
  case True
  then have "last (drop n (c @ [(k, v)])) = last (c @ [(k, v)])" by (rule last_drop)
  with True show ?thesis by (simp add: most_recent_def)
next
  case False
  then show ?thesis by simp
qed

text \<open>
  C3, as the code has it. On a usable collection: a read that finds \<open>k\<close> in
  the cache moves it to the end, where it is the most recent entry; assigning
  to a key that is not in the cache appends it, and the eviction this may
  trigger takes entries from the front, so the new key goes last: it is the
  most recent entry of what is left, unless nothing is left; an eviction of
  \<open>n\<close> entries writes the first \<open>n\<close> entries, oldest first, and keeps the rest.
\<close>

theorem recency_order:
  assumes "table_of s d = Some rows"
  shows "(od_contains k (active_object_cache d) \<longrightarrow>
            (\<exists>v'. getitem s d k =
               (Inr v', s, d\<lparr>active_object_cache := od_move_to_end k (active_object_cache d)\<rparr>))
            \<and> most_recent k (od_move_to_end k (active_object_cache d)))
       \<and> (\<not> od_contains k (active_object_cache d) \<longrightarrow>
            setitem s d k v =
              (Inr (),
               with_table s d
                 (snd (executemany_insert_or_replace
                    (map (row_of d)
                       (take (eviction_count d (active_object_cache d @ [(k, v)]))
                             (active_object_cache d @ [(k, v)]))) rows)),
               d\<lparr>active_object_cache :=
                   drop (eviction_count d (active_object_cache d @ [(k, v)]))
                        (active_object_cache d @ [(k, v)])\<rparr>)
            \<and> (drop (eviction_count d (active_object_cache d @ [(k, v)]))
                     (active_object_cache d @ [(k, v)]) = []
                \<or> most_recent k
                     (drop (eviction_count d (active_object_cache d @ [(k, v)]))
                           (active_object_cache d @ [(k, v)]))))
       \<and> (nat n \<le> length (active_object_cache d) \<longrightarrow>
            prune_cache s d n =
              (Inr (),
               with_table s d
                 (snd (executemany_insert_or_replace
                    (map (row_of d) (take (nat n) (active_object_cache d))) rows)),
               d\<lparr>active_object_cache := drop (nat n) (active_object_cache d)\<rparr>))"
proof (intro conjI impI)
  assume hit: "od_contains k (active_object_cache d)"
  from getitem_open_cached [OF hit, of s]
  show "\<exists>v'. getitem s d k =
          (Inr v', s, d\<lparr>active_object_cache := od_move_to_end k (active_object_cache d)\<rparr>)"
    by blast
  from hit show "most_recent k (od_move_to_end k (active_object_cache d))"
    by (rule most_recent_move_to_end)
next
  assume new: "\<not> od_contains k (active_object_cache d)"
  then have c1: "od_setitem k v (active_object_cache d) = active_object_cache d @ [(k, v)]"
    by (simp add: od_setitem_def)
  from add_to_cache_open [OF assms, of k v] show
    "setitem s d k v =
       (Inr (),
        with_table s d
          (snd (executemany_insert_or_replace
             (map (row_of d)
                (take (eviction_count d (active_object_cache d @ [(k, v)]))
                      (active_object_cache d @ [(k, v)]))) rows)),
        d\<lparr>active_object_cache :=
            drop (eviction_count d (active_object_cache d @ [(k, v)]))
                 (active_object_cache d @ [(k, v)])\<rparr>)"
    by (simp only: setitem_def c1)
  show "drop (eviction_count d (active_object_cache d @ [(k, v)]))
             (active_object_cache d @ [(k, v)]) = []
        \<or> most_recent k
             (drop (eviction_count d (active_object_cache d @ [(k, v)]))
                   (active_object_cache d @ [(k, v)]))"
    by (rule most_recent_new_key)
next
  assume "nat n \<le> length (active_object_cache d)"
  with assms show "prune_cache s d n =
      (Inr (),
       with_table s d
         (snd (executemany_insert_or_replace
            (map (row_of d) (take (nat n) (active_object_cache d))) rows)),
       d\<lparr>active_object_cache := drop (nat n) (active_object_cache d)\<rparr>)"
    by (rule prune_cache_open)
qed

text \<open>
  The claim as it is written fails: with an eviction batch larger than the
  cache, an assignment evicts the key it has just stored; and an assignment
  to a key that is already in the cache leaves it where it was, here at the
  front, where it is the next to be evicted.
\<close>

theorem just_set_key_not_most_recent:
  "\<not> most_recent ''b''
       (active_object_cache (snd (run_operations (snd (snd batch_dict)) [Set ''a'' 1, Set ''b'' 2])))
   \<and> \<not> most_recent ''a''
       (active_object_cache
          (snd (run_operations (snd (snd small_dict)) [Set ''a'' 1, Set ''b'' 2, Set ''a'' 9])))"
  by (simp add: most_recent_def batch_dict_def eval_defs)

lemma assignment_keeps_position:
  "active_object_cache
     (snd (run_operations (snd (snd small_dict)) [Set ''a'' 1, Set ''b'' 2, Set ''a'' 9]))
     = [(''a'', 9), (''b'', 2)]
   \<and> active_object_cache
     (snd (run_operations (snd (snd small_dict)) [Set ''a'' 1, Set ''b'' 2, Set ''a'' 9, Set ''c'' 3]))
     = [(''b'', 2), (''c'', 3)]"
  by (simp add: eval_defs)

theorem recency_order_witness:
  "(let sd = run_operations (snd (snd small_dict)) [Set ''a'' 10, Set ''b'' 20];
        s = fst sd; d = snd sd
    in table_of s d = Some []
       \<and> od_contains ''a'' (active_object_cache d)
       \<and> most_recent ''a'' (active_object_cache (snd (snd (getitem s d ''a''))))
       \<and> \<not> od_contains ''c'' (active_object_cache d)
       \<and> active_object_cache (snd (snd (setitem s d ''c'' 30))) = [(''b'', 20), (''c'', 30)]
       \<and> table_of (fst (snd (setitem s d ''c'' 30))) (snd (snd (setitem s d ''c'' 30)))
           = Some [(''a'', 10, [])]
       \<and> nat 2 \<le> length (active_object_cache d)
       \<and> table_of (fst (snd (prune_cache s d 2))) (snd (snd (prune_cache s d 2)))
           = Some [(''a'', 10, []), (''b'', 20, [])])"
proof -
  let ?sd = "run_operations (snd (snd small_dict)) [Set ''a'' 10, Set ''b'' 20]"
  let ?s = "fst ?sd" and ?d = "snd ?sd"
  have usable: "table_of ?s ?d = Some []" by (simp add: eval_defs table_of_def)
  have cache: "active_object_cache ?d = [(''a'', 10), (''b'', 20)]" by (simp add: eval_defs)
  have hit: "od_contains ''a'' (active_object_cache ?d)" by (simp add: cache od_contains_def)
  have new: "\<not> od_contains ''c'' (active_object_cache ?d)" by (simp add: cache od_contains_def)
  have n: "nat 2 \<le> length (active_object_cache ?d)" by (simp add: cache)
  have max: "cache_max_size ?d = 2" "cache_eviction_batch_size ?d = 1"
    by (simp_all add: eval_defs)
  note hit_a = recency_order [OF usable, where k = "''a''" and v = 0 and n = 0]
  note inst = recency_order [OF usable, where k = "''c''" and v = 30 and n = 2]
  from hit_a hit obtain v' where
    g: "getitem ?s ?d ''a'' =
          (Inr v', ?s, ?d\<lparr>active_object_cache := od_move_to_end ''a'' (active_object_cache ?d)\<rparr>)"
    and mr: "most_recent ''a'' (od_move_to_end ''a'' (active_object_cache ?d))"
    by blast
  from mr have 1: "most_recent ''a'' (active_object_cache (snd (snd (getitem ?s ?d ''a''))))"
    unfolding g by simp
  from inst new have set: "setitem ?s ?d ''c'' 30 =
              (Inr (),
               with_table ?s ?d
                 (snd (executemany_insert_or_replace
                    (map (row_of ?d)
                       (take (eviction_count ?d (active_object_cache ?d @ [(''c'', 30)]))
                             (active_object_cache ?d @ [(''c'', 30)]))) [])),
               ?d\<lparr>active_object_cache :=
                   drop (eviction_count ?d (active_object_cache ?d @ [(''c'', 30)]))
                        (active_object_cache ?d @ [(''c'', 30)])\<rparr>)"
    by blast
  have 2: "active_object_cache (snd (snd (setitem ?s ?d ''c'' 30))) = [(''b'', 20), (''c'', 30)]"
    unfolding set by (simp add: cache eviction_count_def max)
  have 3: "table_of (fst (snd (setitem ?s ?d ''c'' 30))) (snd (snd (setitem ?s ?d ''c'' 30)))
           = Some [(''a'', 10, [])]"
    unfolding set
    by (simp add: table_of_with_table [OF usable] cache eviction_count_def max
        executemany_insert_or_replace_def insert_or_replace_def row_of_def)
       (simp add: eval_defs)
  from inst n have prune: "prune_cache ?s ?d 2 =
              (Inr (),
               with_table ?s ?d
                 (snd (executemany_insert_or_replace
                    (map (row_of ?d) (take (nat 2) (active_object_cache ?d))) [])),
               ?d\<lparr>active_object_cache := drop (nat 2) (active_object_cache ?d)\<rparr>)"
    by blast
  have 4: "table_of (fst (snd (prune_cache ?s ?d 2))) (snd (snd (prune_cache ?s ?d 2)))
           = Some [(''a'', 10, []), (''b'', 20, [])]"
    unfolding prune
    by (simp add: table_of_with_table [OF usable] cache
        executemany_insert_or_replace_def insert_or_replace_def row_of_def)
       (simp add: eval_defs)
  from usable hit 1 new 2 3 n 4 show ?thesis by (simp only: Let_def) blast
qed

section \<open>The shared connection and its count\<close>


lemma registry_inv_tables:
  "registry_inv cc s \<Longrightarrow> registry_inv cc (s\<lparr>tables := T\<rparr>)"
  by (simp add: registry_inv_def)













lemma registry_inv_with_table:
  "registry_inv cc s \<Longrightarrow> registry_inv cc (with_table s d rows)"
  by (auto simp: with_table_def registry_inv_tables split: option.splits)






section \<open>Extra columns and queries\<close>

lemma visible_tables_own: "visible_tables s d (tablename d) = table_of s d"
  by (simp add: visible_tables_def table_of_def split: option.splits)

lemma visible_tables_cache_upd [simp]:
  "visible_tables s (d\<lparr>active_object_cache := c\<rparr>) = visible_tables s d"
  by (simp add: visible_tables_def split: option.splits)










end
